theory Spec2Isabelle
  imports Complex_Main "HOL-Library.Monad_Syntax" "HOL-Library.Word"
begin

section \<open>Smooth Path: a shallow embedding of smooth-path.c\<close>

text \<open>
  The embedding follows \<^verbatim>\<open>src/smooth-path.c\<close> function by function.

  \<^item> A \<^verbatim>\<open>gdouble\<close> is a \<^typ>\<open>real\<close>: arithmetic is exact. Two functions are embedded more
    closely. In \<^verbatim>\<open>angle_between\<close> a zero carries its sign, on which the result depends.
    \<^verbatim>\<open>triagonal_solve\<close> has a second embedding over IEEE 754 doubles, with rounding,
    infinities and NaN, for the statement about its accuracy.
  \<^item> A \<^verbatim>\<open>GArray\<close> of doubles and the \<^verbatim>\<open>ctlpts\<close> buffer are \<^typ>\<open>real list\<close>s that are
    passed through the code and returned updated. Every element access is checked: an
    index outside the array makes the whole computation \<^const>\<open>None\<close>.
  \<^item> \<^verbatim>\<open>gint32\<close> and \<^verbatim>\<open>gboolean\<close> (a \<^verbatim>\<open>gint\<close>) are 32-bit words.
  \<^item> The global \<^verbatim>\<open>svals\<close> is an argument \<open>sv\<close> of the functions that read it.
  \<^item> Array lengths and loop counters are natural numbers. The subtractions on them
    (\<^verbatim>\<open>acx->len - 2\<close>, \<^verbatim>\<open>num_points - 4\<close>, \<^verbatim>\<open>n * 6 - 4\<close>, ...) are only reached behind the
    guard \<^verbatim>\<open>num_points >= 18\<close>, where none of them goes below zero.
\<close>

subsection \<open>Arrays and loops\<close>

definition g_array_index :: "'a list \<Rightarrow> nat \<Rightarrow> 'a option" where
  "g_array_index xs i = (if i < length xs then Some (xs ! i) else None)"

definition g_array_assign :: "'a list \<Rightarrow> nat \<Rightarrow> 'a \<Rightarrow> 'a list option" where
  "g_array_assign xs i v = (if i < length xs then Some (xs[i := v]) else None)"

text \<open>\<^verbatim>\<open>g_array_set_size\<close> on an array created with \<^verbatim>\<open>clear = TRUE\<close>: shrinking keeps a
  prefix, growing appends zeros.\<close>

definition g_array_set_size :: "real list \<Rightarrow> nat \<Rightarrow> real list" where
  "g_array_set_size xs n = take n xs @ replicate (n - length xs) 0"

definition g_array_remove_index :: "'a list \<Rightarrow> nat \<Rightarrow> 'a list option" where
  "g_array_remove_index xs i =
     (if i < length xs then Some (take i xs @ drop (Suc i) xs) else None)"

text \<open>A counted loop: the body runs once for each index of the list, in order, on the
  state left by the previous iteration, and stops at the first failure.\<close>

primrec for_loop :: "nat list \<Rightarrow> (nat \<Rightarrow> 's \<Rightarrow> 's option) \<Rightarrow> 's \<Rightarrow> 's option" where
  "for_loop [] body s = Some s"
| "for_loop (i # is) body s =
     (case body i s of None \<Rightarrow> None | Some s' \<Rightarrow> for_loop is body s')"

subsection \<open>Settings\<close>

record SmoothVals =
  smooth_specified :: "32 word"
  ang_min :: real
  ang_max :: real

definition svals :: SmoothVals where
  "svals = \<lparr>smooth_specified = 0, ang_min = 60, ang_max = 120\<rparr>"

subsection \<open>\<^verbatim>\<open>angle_between\<close>\<close>

text \<open>In \<^verbatim>\<open>angle_between\<close> the sign of a zero decides what \<^verbatim>\<open>atan2\<close> returns. The doubles of
  this function are therefore the real numbers together with the negative zero:
  \<open>Fin 0\<close> is \<^verbatim>\<open>+0.0\<close> and \<open>NegZero\<close> is \<^verbatim>\<open>-0.0\<close>. The operations are exact on the values, and
  a result that is zero gets the sign that IEEE 754 gives it in the default rounding
  mode: a product has the signs of its factors multiplied, a sum is \<^verbatim>\<open>-0.0\<close> only when
  both summands are negative zeros, and \<open>x - y\<close> is \<open>x + (- y)\<close>.\<close>

datatype sreal = Fin real | NegZero

primrec val :: "sreal \<Rightarrow> real" where
  "val (Fin r) = r"
| "val NegZero = 0"

primrec signbit :: "sreal \<Rightarrow> bool" where
  "signbit (Fin r) = (r < 0)"
| "signbit NegZero = True"

definition zero_of :: "bool \<Rightarrow> sreal" where
  "zero_of negative = (if negative then NegZero else Fin 0)"

definition sr_neg :: "sreal \<Rightarrow> sreal" where
  "sr_neg x = (if val x = 0 then zero_of (\<not> signbit x) else Fin (- val x))"

definition sr_add :: "sreal \<Rightarrow> sreal \<Rightarrow> sreal" where
  "sr_add x y =
     (if val x + val y = 0 then zero_of (signbit x \<and> signbit y) else Fin (val x + val y))"

definition sr_sub :: "sreal \<Rightarrow> sreal \<Rightarrow> sreal" where
  "sr_sub x y = sr_add x (sr_neg y)"

definition sr_mul :: "sreal \<Rightarrow> sreal \<Rightarrow> sreal" where
  "sr_mul x y =
     (if val x * val y = 0 then zero_of (signbit x \<noteq> signbit y) else Fin (val x * val y))"

text \<open>\<^verbatim>\<open>atan2\<close> of the C library (C99, F.9.1.4), as the real number it returns: the angle of
  the point \<open>(x, y)\<close> in \<open>[-\<pi>, \<pi>]\<close>. For \<open>y = \<plusminus>0\<close> the result is \<open>\<plusminus>\<pi>\<close> when \<open>x\<close> is negative or
  \<^verbatim>\<open>-0.0\<close>, and \<open>\<plusminus>0\<close> when \<open>x\<close> is positive or \<^verbatim>\<open>+0.0\<close>. The sign of a zero result is not kept:
  the program uses the result under \<^verbatim>\<open>ABS\<close> only.\<close>

definition atan2 :: "sreal \<Rightarrow> sreal \<Rightarrow> real" where
  "atan2 y x =
     (if 0 < val x then arctan (val y / val x)
      else if val x < 0
        then (if signbit y then arctan (val y / val x) - pi else arctan (val y / val x) + pi)
      else if 0 < val y then pi / 2
      else if val y < 0 then - (pi / 2)
      else if signbit x then (if signbit y then - pi else pi)
      else 0)"

definition rad_to_deg :: "real \<Rightarrow> real" where
  "rad_to_deg angle = angle * 360 / (2 * pi)"

text \<open>The value of the local \<^verbatim>\<open>ret\<close> of \<^verbatim>\<open>angle_between\<close>. The macros \<^verbatim>\<open>ABS\<close> and \<^verbatim>\<open>G_PI\<close> of
  glib are the absolute value and \<open>\<pi>\<close>.\<close>

definition corner_angle :: "sreal \<Rightarrow> sreal \<Rightarrow> sreal \<Rightarrow> sreal \<Rightarrow> sreal \<Rightarrow> sreal \<Rightarrow> real" where
  "corner_angle vax vay vbx vby vcx vcy =
     (let v1x = sr_sub vbx vax;
          v1y = sr_sub vby vay;
          v2x = sr_sub vcx vbx;
          v2y = sr_sub vcy vby
      in 180 - \<bar>rad_to_deg (atan2 (sr_add (sr_mul (sr_neg v1y) v2x) (sr_mul v1x v2y))
                                   (sr_add (sr_mul v1x v2x) (sr_mul v1y v2y)))\<bar>)"

definition angle_between ::
  "SmoothVals \<Rightarrow> sreal \<Rightarrow> sreal \<Rightarrow> sreal \<Rightarrow> sreal \<Rightarrow> sreal \<Rightarrow> sreal \<Rightarrow> 32 word" where
  "angle_between sv vax vay vbx vby vcx vcy =
     (if smooth_specified sv = 0 then - 1
      else let ret = corner_angle vax vay vbx vby vcx vcy
           in if ang_max sv > ang_min sv
              then of_bool (ret < ang_max sv \<and> ret > ang_min sv)
              else of_bool (ret < ang_max sv \<or> ret > ang_min sv))"

subsection \<open>\<^verbatim>\<open>triagonal_solve\<close>\<close>

text \<open>The forward sweep and the back substitution, on the arrays \<^verbatim>\<open>asc\<close>, \<^verbatim>\<open>asd\<close> and
  \<^verbatim>\<open>asb\<close>. The function returns the two arrays of the caller that it has written.\<close>

definition sweep_step :: "nat \<Rightarrow> real list \<times> real list \<Rightarrow> (real list \<times> real list) option" where
  "sweep_step i s =
     (case s of (asc, asd) \<Rightarrow> do {
        cp \<leftarrow> g_array_index asc (i - 1);
        let id = 4 - cp;
        ci \<leftarrow> g_array_index asc i;
        asc \<leftarrow> g_array_assign asc i (ci / id);
        di \<leftarrow> g_array_index asd i;
        dp \<leftarrow> g_array_index asd (i - 1);
        asd \<leftarrow> g_array_assign asd i ((di - dp) / id);
        Some (asc, asd)
      })"

definition back_step :: "real list \<Rightarrow> real list \<Rightarrow> nat \<Rightarrow> real list \<Rightarrow> real list option" where
  "back_step asc asd i asb = do {
     di \<leftarrow> g_array_index asd i;
     ci \<leftarrow> g_array_index asc i;
     bn \<leftarrow> g_array_index asb (i + 1);
     g_array_assign asb i (di - ci * bn)
   }"

definition triagonal_solve :: "real list \<Rightarrow> real list \<Rightarrow> (real list \<times> real list) option" where
  "triagonal_solve asb asd = do {
     let asc = replicate (length asb) (1::real);
     c0 \<leftarrow> g_array_index asc 0;
     asc \<leftarrow> g_array_assign asc 0 (c0 * 0.25);
     d0 \<leftarrow> g_array_index asd 0;
     asd \<leftarrow> g_array_assign asd 0 (d0 * 0.25);
     (asc, asd) \<leftarrow> for_loop [1..<length asb] sweep_step (asc, asd);
     dl \<leftarrow> g_array_index asd (length asb - 1);
     asb \<leftarrow> g_array_assign asb (length asb - 1) dl;
     asb \<leftarrow> for_loop (rev [0..<length asb - 1]) (back_step asc asd) asb;
     Some (asb, asd)
   }"

subsection \<open>\<^verbatim>\<open>triagonal_solve\<close> in double arithmetic\<close>

text \<open>What \<^verbatim>\<open>triagonal_solve\<close> returns on a machine depends on rounding, so the function is
  embedded a second time, over the binary64 numbers of IEEE 754. A double is a finite
  value (a real number or the negative zero, as in \<^verbatim>\<open>angle_between\<close>), an infinity or a
  NaN.\<close>

datatype double = Num sreal | PInf | NInf | NaN

text \<open>Rounding to nearest, ties to even: a real number \<open>r\<close> with \<open>2\<^sup>e \<le> \<bar>r\<bar> < 2\<^sup>e\<^sup>+\<^sup>1\<close> is rounded
  to a multiple of \<open>2\<^sup>e\<^sup>-\<^sup>5\<^sup>2\<close> (53 significant bits), and with \<open>\<bar>r\<bar> < 2\<^sup>-\<^sup>1\<^sup>0\<^sup>2\<^sup>2\<close> to a multiple of
  \<open>2\<^sup>-\<^sup>1\<^sup>0\<^sup>7\<^sup>4\<close> (the subnormal numbers).\<close>

definition ulp_of :: "real \<Rightarrow> real" where
  "ulp_of r = 2 powi (max \<lfloor>log 2 \<bar>r\<bar>\<rfloor> (- 1022) - 52)"

definition nearest_even :: "real \<Rightarrow> int" where
  "nearest_even q =
     (let f = \<lfloor>q\<rfloor>
      in if q - of_int f < 1 / 2 then f
         else if 1 / 2 < q - of_int f then f + 1
         else if even f then f else f + 1)"

definition rne :: "real \<Rightarrow> real" where
  "rne r = of_int (nearest_even (r / ulp_of r)) * ulp_of r"

text \<open>The double that an operation returns for its exact result: a result that is
  \<open>2\<^sup>1\<^sup>0\<^sup>2\<^sup>4\<close> or more in magnitude after rounding is an infinity, a non-zero result that
  is rounded to zero keeps its sign, and a zero is returned as it is.\<close>

definition round_double :: "sreal \<Rightarrow> double" where
  "round_double x =
     (if val x = 0 then Num x
      else let q = rne (val x)
           in if 2 ^ 1024 \<le> \<bar>q\<bar> then (if val x < 0 then NInf else PInf)
              else if q = 0 then Num (zero_of (val x < 0))
              else Num (Fin q))"

primrec d_sign :: "double \<Rightarrow> bool" where
  "d_sign (Num x) = signbit x"
| "d_sign PInf = False"
| "d_sign NInf = True"
| "d_sign NaN = False"

definition d_inf :: "bool \<Rightarrow> double" where
  "d_inf negative = (if negative then NInf else PInf)"

text \<open>The operations \<^verbatim>\<open>-x\<close>, \<^verbatim>\<open>x + y\<close>, \<^verbatim>\<open>x - y\<close>, \<^verbatim>\<open>x * y\<close> and \<^verbatim>\<open>x / y\<close> on doubles, each rounded
  once: no fused multiply-add and no intermediate result of a higher precision.\<close>

primrec d_neg :: "double \<Rightarrow> double" where
  "d_neg (Num x) = Num (sr_neg x)"
| "d_neg PInf = NInf"
| "d_neg NInf = PInf"
| "d_neg NaN = NaN"

definition d_add :: "double \<Rightarrow> double \<Rightarrow> double" where
  "d_add a b =
     (case (a, b) of
        (Num x, Num y) \<Rightarrow> round_double (sr_add x y)
      | (NaN, _) \<Rightarrow> NaN
      | (_, NaN) \<Rightarrow> NaN
      | (PInf, NInf) \<Rightarrow> NaN
      | (NInf, PInf) \<Rightarrow> NaN
      | (Num x, _) \<Rightarrow> b
      | (_, _) \<Rightarrow> a)"

definition d_sub :: "double \<Rightarrow> double \<Rightarrow> double" where
  "d_sub a b = d_add a (d_neg b)"

definition d_mul :: "double \<Rightarrow> double \<Rightarrow> double" where
  "d_mul a b =
     (case (a, b) of
        (Num x, Num y) \<Rightarrow> round_double (sr_mul x y)
      | (NaN, _) \<Rightarrow> NaN
      | (_, NaN) \<Rightarrow> NaN
      | (Num x, _) \<Rightarrow> if val x = 0 then NaN else d_inf (signbit x \<noteq> d_sign b)
      | (_, Num y) \<Rightarrow> if val y = 0 then NaN else d_inf (d_sign a \<noteq> signbit y)
      | (_, _) \<Rightarrow> d_inf (d_sign a \<noteq> d_sign b))"

definition d_div :: "double \<Rightarrow> double \<Rightarrow> double" where
  "d_div a b =
     (case (a, b) of
        (Num x, Num y) \<Rightarrow>
          if val y = 0 then (if val x = 0 then NaN else d_inf (signbit x \<noteq> signbit y))
          else if val x = 0 then Num (zero_of (signbit x \<noteq> signbit y))
          else round_double (Fin (val x / val y))
      | (NaN, _) \<Rightarrow> NaN
      | (_, NaN) \<Rightarrow> NaN
      | (Num x, _) \<Rightarrow> Num (zero_of (signbit x \<noteq> d_sign b))
      | (_, Num y) \<Rightarrow> d_inf (d_sign a \<noteq> signbit y)
      | (_, _) \<Rightarrow> NaN)"

text \<open>The statements of \<^verbatim>\<open>triagonal_solve\<close> once more, with these operations.\<close>

definition sweep_step_d ::
  "nat \<Rightarrow> double list \<times> double list \<Rightarrow> (double list \<times> double list) option" where
  "sweep_step_d i s =
     (case s of (asc, asd) \<Rightarrow> do {
        cp \<leftarrow> g_array_index asc (i - 1);
        let id = d_sub (Num (Fin 4)) cp;
        ci \<leftarrow> g_array_index asc i;
        asc \<leftarrow> g_array_assign asc i (d_div ci id);
        di \<leftarrow> g_array_index asd i;
        dp \<leftarrow> g_array_index asd (i - 1);
        asd \<leftarrow> g_array_assign asd i (d_div (d_sub di dp) id);
        Some (asc, asd)
      })"

definition back_step_d ::
  "double list \<Rightarrow> double list \<Rightarrow> nat \<Rightarrow> double list \<Rightarrow> double list option" where
  "back_step_d asc asd i asb = do {
     di \<leftarrow> g_array_index asd i;
     ci \<leftarrow> g_array_index asc i;
     bn \<leftarrow> g_array_index asb (i + 1);
     g_array_assign asb i (d_sub di (d_mul ci bn))
   }"

definition triagonal_solve_d ::
  "double list \<Rightarrow> double list \<Rightarrow> (double list \<times> double list) option" where
  "triagonal_solve_d asb asd = do {
     let asc = replicate (length asb) (Num (Fin 1));
     c0 \<leftarrow> g_array_index asc 0;
     asc \<leftarrow> g_array_assign asc 0 (d_mul c0 (Num (Fin 0.25)));
     d0 \<leftarrow> g_array_index asd 0;
     asd \<leftarrow> g_array_assign asd 0 (d_mul d0 (Num (Fin 0.25)));
     (asc, asd) \<leftarrow> for_loop [1..<length asb] sweep_step_d (asc, asd);
     dl \<leftarrow> g_array_index asd (length asb - 1);
     asb \<leftarrow> g_array_assign asb (length asb - 1) dl;
     asb \<leftarrow> for_loop (rev [0..<length asb - 1]) (back_step_d asc asd) asb;
     Some (asb, asd)
   }"

subsection \<open>\<^verbatim>\<open>set_bezier_path\<close>\<close>

text \<open>Lines 192-208: the anchor arrays \<^verbatim>\<open>acx\<close> (offset 2) and \<^verbatim>\<open>acy\<close> (offset 3), with
  the padding of a closed stroke.\<close>

definition anchor_step :: "real list \<Rightarrow> nat \<Rightarrow> real list \<times> real list \<Rightarrow> (real list \<times> real list) option" where
  "anchor_step ctlpts n s =
     (case s of (acx, acy) \<Rightarrow> do {
        x \<leftarrow> g_array_index ctlpts (n * 6 + 2);
        acx \<leftarrow> g_array_assign acx n x;
        y \<leftarrow> g_array_index ctlpts (n * 6 + 3);
        acy \<leftarrow> g_array_assign acy n y;
        Some (acx, acy)
      })"

definition anchor_arrays :: "real list \<Rightarrow> bool \<Rightarrow> (real list \<times> real list) option" where
  "anchor_arrays ctlpts is_closed = do {
     let num_points = length ctlpts;
     let len = num_points div 6;
     let acx = g_array_set_size [] len;
     let acy = g_array_set_size [] len;
     (acx, acy) \<leftarrow> for_loop [0..<length acx] (anchor_step ctlpts) (acx, acy);
     if is_closed then do {
       px \<leftarrow> g_array_index ctlpts (num_points - 4);
       let acx = px # acx;
       py \<leftarrow> g_array_index ctlpts (num_points - 3);
       let acy = py # acy;
       x0 \<leftarrow> g_array_index ctlpts 2;
       let acx = acx @ [x0];
       y0 \<leftarrow> g_array_index ctlpts 3;
       let acy = acy @ [y0];
       x1 \<leftarrow> g_array_index ctlpts 8;
       let acx = acx @ [x1];
       y1 \<leftarrow> g_array_index ctlpts 9;
       let acy = acy @ [y1];
       Some (acx, acy)
     } else Some (acx, acy)
   }"

text \<open>Lines 211-239 for x and 242-270 for y are the same code on \<^verbatim>\<open>acx\<close> and \<^verbatim>\<open>acy\<close>:
  the right-hand side in \<^verbatim>\<open>asd\<close>, the solution in \<^verbatim>\<open>asb\<close>, and the two control values
  of every segment appended to \<^verbatim>\<open>acon1\<close> and \<^verbatim>\<open>acon2\<close>. The arrays \<^verbatim>\<open>asd\<close> and \<^verbatim>\<open>asb\<close>
  are shared by the two passes, so they are an argument and a result. The call of the
  solver is an argument \<open>solve\<close>, which the program instantiates with
  \<^verbatim>\<open>triagonal_solve\<close>.\<close>

definition rhs_step :: "real list \<Rightarrow> nat \<Rightarrow> real list \<Rightarrow> real list option" where
  "rhs_step ac n asd = do {
     a \<leftarrow> g_array_index ac (n + 1);
     g_array_assign asd n (6 * a)
   }"

definition con_step :: "real list \<Rightarrow> nat \<Rightarrow> real list \<times> real list \<Rightarrow> (real list \<times> real list) option" where
  "con_step asb n s =
     (case s of (acon1, acon2) \<Rightarrow> do {
        bp \<leftarrow> g_array_index asb (n - 1);
        bn \<leftarrow> g_array_index asb n;
        let h = 2 * bp / 3 + bn / 3;
        let acon1 = acon1 @ [h];
        bp \<leftarrow> g_array_index asb (n - 1);
        bn \<leftarrow> g_array_index asb n;
        let h = bp / 3 + 2 * bn / 3;
        let acon2 = acon2 @ [h];
        Some (acon1, acon2)
      })"

definition axis_pass_with ::
  "(real list \<Rightarrow> real list \<Rightarrow> (real list \<times> real list) option)
     \<Rightarrow> real list \<Rightarrow> real list \<Rightarrow> real list
     \<Rightarrow> (real list \<times> real list \<times> real list \<times> real list) option" where
  "axis_pass_with solve asd asb ac = do {
     let asd = g_array_set_size asd (length ac - 2);
     let asb = g_array_set_size asb (length ac - 2);
     (asb, asd) \<leftarrow>
       (if length asd = 1 then do {
          a1 \<leftarrow> g_array_index ac 1;
          a0 \<leftarrow> g_array_index ac 0;
          a2 \<leftarrow> g_array_index ac 2;
          asb \<leftarrow> g_array_assign asb 0 (1.50 * a1 - 0.25 * a0 - 0.25 * a2);
          Some (asb, asd)
        } else do {
          a1 \<leftarrow> g_array_index ac 1;
          a0 \<leftarrow> g_array_index ac 0;
          asd \<leftarrow> g_array_assign asd 0 (6 * a1 - a0);
          asd \<leftarrow> for_loop [1..<length ac - 3] (rhs_step ac) asd;
          ap \<leftarrow> g_array_index ac (length ac - 2);
          al \<leftarrow> g_array_index ac (length ac - 1);
          asd \<leftarrow> g_array_assign asd (length ac - 3) (6 * ap - al);
          solve asb asd
        });
     a0 \<leftarrow> g_array_index ac 0;
     let asb = a0 # asb;
     al \<leftarrow> g_array_index ac (length ac - 1);
     let asb = asb @ [al];
     (acon1, acon2) \<leftarrow> for_loop [1..<length ac] (con_step asb) ([], []);
     Some (asd, asb, acon1, acon2)
   }"

definition axis_pass ::
  "real list \<Rightarrow> real list \<Rightarrow> real list
     \<Rightarrow> (real list \<times> real list \<times> real list \<times> real list) option" where
  "axis_pass = axis_pass_with triagonal_solve"

text \<open>A solver that refuses arrays of fewer than two elements. The program does not
  contain it; it serves to state that the program never calls \<^verbatim>\<open>triagonal_solve\<close> on
  such arrays.\<close>

definition triagonal_solve_guarded ::
  "real list \<Rightarrow> real list \<Rightarrow> (real list \<times> real list) option" where
  "triagonal_solve_guarded asb asd = (if length asb < 2 then None else triagonal_solve asb asd)"

text \<open>A call \<^verbatim>\<open>angle_between(ctlpts[i1], ..., ctlpts[i6])\<close> as a condition. The scalars
  of a stroke are real numbers, so a zero among them is passed as \<^verbatim>\<open>+0.0\<close>.\<close>

definition angle_at ::
  "SmoothVals \<Rightarrow> real list \<Rightarrow> nat \<Rightarrow> nat \<Rightarrow> nat \<Rightarrow> nat \<Rightarrow> nat \<Rightarrow> nat \<Rightarrow> bool option" where
  "angle_at sv ctlpts i1 i2 i3 i4 i5 i6 = do {
     vax \<leftarrow> g_array_index ctlpts i1;
     vay \<leftarrow> g_array_index ctlpts i2;
     vbx \<leftarrow> g_array_index ctlpts i3;
     vby \<leftarrow> g_array_index ctlpts i4;
     vcx \<leftarrow> g_array_index ctlpts i5;
     vcy \<leftarrow> g_array_index ctlpts i6;
     Some (angle_between sv (Fin vax) (Fin vay) (Fin vbx) (Fin vby) (Fin vcx) (Fin vcy) \<noteq> 0)
   }"

text \<open>The two assignments \<^verbatim>\<open>ctlpts[i] = aconx[nx]; ctlpts[j] = acony[ny];\<close>.\<close>

definition put_con ::
  "real list \<Rightarrow> nat \<Rightarrow> nat \<Rightarrow> real list \<Rightarrow> real list \<Rightarrow> nat \<Rightarrow> nat
     \<Rightarrow> real list option" where
  "put_con ctlpts i j aconx acony nx ny = do {
     x \<leftarrow> g_array_index aconx nx;
     ctlpts \<leftarrow> g_array_assign ctlpts i x;
     y \<leftarrow> g_array_index acony ny;
     g_array_assign ctlpts j y
   }"

text \<open>The body of the loop of lines 294-334, in its two halves: lines 295-313 set the
  outgoing control point of anchor \<open>n\<close>, lines 314-333 the incoming control point of
  anchor \<open>n + 1\<close>.\<close>

definition outgoing_step ::
  "SmoothVals \<Rightarrow> bool \<Rightarrow> nat \<Rightarrow> real list \<Rightarrow> real list \<Rightarrow> nat \<Rightarrow> real list
     \<Rightarrow> real list option" where
  "outgoing_step sv is_closed num_points aconx1 acony1 n ctlpts =
     (if n = 0 then do {
        t \<leftarrow> (if is_closed
              then angle_at sv ctlpts (num_points - 4) (num_points - 3) 2 3 8 9
              else Some False);
        if t then put_con ctlpts (n * 6 + 4) (n * 6 + 5) aconx1 acony1 n n
        else if \<not> is_closed \<and> smooth_specified sv = 0
        then put_con ctlpts (n * 6 + 4) (n * 6 + 5) aconx1 acony1 n n
        else Some ctlpts
      } else do {
        t \<leftarrow> angle_at sv ctlpts (n * 6 - 4) (n * 6 - 3) (n * 6 + 2) (n * 6 + 3)
               (n * 6 + 8) (n * 6 + 9);
        if t then put_con ctlpts (n * 6 + 4) (n * 6 + 5) aconx1 acony1 n n
        else Some ctlpts
      })"

definition incoming_step ::
  "SmoothVals \<Rightarrow> bool \<Rightarrow> nat \<Rightarrow> nat \<Rightarrow> real list \<Rightarrow> real list \<Rightarrow> nat \<Rightarrow> real list
     \<Rightarrow> real list option" where
  "incoming_step sv is_closed num_points len aconx2 acony2 n ctlpts =
     (if n = len - 2 then do {
        t \<leftarrow> (if is_closed
              then angle_at sv ctlpts (num_points - 10) (num_points - 9) (num_points - 4)
                     (num_points - 3) 2 3
              else Some False);
        if t then put_con ctlpts (n * 6 + 6) (n * 6 + 7) aconx2 acony2 n n
        else if \<not> is_closed \<and> smooth_specified sv = 0
        then put_con ctlpts (n * 6 + 6) (n * 6 + 7) aconx2 acony2 n n
        else Some ctlpts
      } else do {
        t \<leftarrow> angle_at sv ctlpts (n * 6 + 2) (n * 6 + 3) (n * 6 + 8) (n * 6 + 9)
               (n * 6 + 14) (n * 6 + 15);
        if t then put_con ctlpts (n * 6 + 6) (n * 6 + 7) aconx2 acony2 n n
        else Some ctlpts
      })"

definition interior_step ::
  "SmoothVals \<Rightarrow> bool \<Rightarrow> nat \<Rightarrow> nat \<Rightarrow> real list \<Rightarrow> real list \<Rightarrow> real list \<Rightarrow> real list
     \<Rightarrow> nat \<Rightarrow> real list \<Rightarrow> real list option" where
  "interior_step sv is_closed num_points len aconx1 acony1 aconx2 acony2 n ctlpts = do {
     ctlpts \<leftarrow> outgoing_step sv is_closed num_points aconx1 acony1 n ctlpts;
     incoming_step sv is_closed num_points len aconx2 acony2 n ctlpts
   }"

text \<open>Lines 272-282: the padding entries of a closed stroke are removed, last one first.\<close>

definition strip_padding :: "bool \<Rightarrow> real list \<Rightarrow> real list option" where
  "strip_padding is_closed acon =
     (if is_closed then do {
        acon \<leftarrow> g_array_remove_index acon (length acon - 1);
        g_array_remove_index acon 0
      } else Some acon)"

text \<open>Lines 182-282: from the stroke to the four arrays of computed control values,
  \<^verbatim>\<open>aconx1\<close>, \<^verbatim>\<open>aconx2\<close>, \<^verbatim>\<open>acony1\<close> and \<^verbatim>\<open>acony2\<close>.\<close>

definition control_arrays ::
  "real list \<Rightarrow> bool \<Rightarrow> (real list \<times> real list \<times> real list \<times> real list) option" where
  "control_arrays ctlpts is_closed = do {
     (acx, acy) \<leftarrow> anchor_arrays ctlpts is_closed;
     (asd, asb, aconx1, aconx2) \<leftarrow> axis_pass [] [] acx;
     (asd, asb, acony1, acony2) \<leftarrow> axis_pass asd asb acy;
     aconx1 \<leftarrow> strip_padding is_closed aconx1;
     aconx2 \<leftarrow> strip_padding is_closed aconx2;
     acony1 \<leftarrow> strip_padding is_closed acony1;
     acony2 \<leftarrow> strip_padding is_closed acony2;
     Some (aconx1, aconx2, acony1, acony2)
   }"

text \<open>Lines 284-345: the control values are written into \<^verbatim>\<open>ctlpts\<close>, each one behind its
  test.\<close>

definition update_ctlpts ::
  "SmoothVals \<Rightarrow> bool \<Rightarrow> real list \<Rightarrow> real list \<Rightarrow> real list \<Rightarrow> real list \<Rightarrow> real list
     \<Rightarrow> real list option" where
  "update_ctlpts sv is_closed ctlpts aconx1 acony1 aconx2 acony2 = do {
     let num_points = length ctlpts;
     let len = num_points div 6;
     ctlpts \<leftarrow>
       (if is_closed then do {
          t \<leftarrow> angle_at sv ctlpts (num_points - 4) (num_points - 3) 2 3 8 9;
          if t then put_con ctlpts 0 1 aconx2 acony2 (length aconx2 - 1) (length acony2 - 1)
          else Some ctlpts
        } else Some ctlpts);
     ctlpts \<leftarrow> for_loop [0..<len - 1]
                (interior_step sv is_closed num_points len aconx1 acony1 aconx2 acony2) ctlpts;
     (if is_closed then do {
        t \<leftarrow> angle_at sv ctlpts (num_points - 10) (num_points - 9) (num_points - 4)
               (num_points - 3) 2 3;
        if t then put_con ctlpts (num_points - 2) (num_points - 1) aconx1 acony1
                    (length aconx1 - 1) (length acony1 - 1)
        else Some ctlpts
      } else Some ctlpts)
   }"

text \<open>The stroke read by \<^verbatim>\<open>gimp_vectors_stroke_get_points\<close> is the argument
  (\<^verbatim>\<open>num_points\<close> is the length of \<^verbatim>\<open>ctlpts\<close>); the stroke handed to
  \<^verbatim>\<open>gimp_vectors_stroke_new_from_points\<close> is the result.\<close>

definition set_bezier_path :: "SmoothVals \<Rightarrow> real list \<Rightarrow> bool \<Rightarrow> (real list \<times> bool) option" where
  "set_bezier_path sv ctlpts is_closed =
     (let num_points = length ctlpts in
      if num_points < 18 then Some (ctlpts, is_closed)
      else do {
        (aconx1, aconx2, acony1, acony2) \<leftarrow> control_arrays ctlpts is_closed;
        ctlpts \<leftarrow> update_ctlpts sv is_closed ctlpts aconx1 acony1 aconx2 acony2;
        Some (ctlpts, is_closed)
      })"

subsection \<open>The tridiagonal system\<close>

text \<open>The matrix of the system that \<^verbatim>\<open>triagonal_solve\<close> is meant to solve: 4 on the
  diagonal, 1 next to it, 0 elsewhere; and the product of a matrix with a vector.\<close>

definition tridiag :: "nat \<Rightarrow> nat \<Rightarrow> real" where
  "tridiag i j = (if i = j then 4 else if i = Suc j \<or> j = Suc i then 1 else 0)"

definition mat_vec :: "(nat \<Rightarrow> nat \<Rightarrow> real) \<Rightarrow> real list \<Rightarrow> real list" where
  "mat_vec A x = map (\<lambda>i. \<Sum>j<length x. A i j * x ! j) [0..<length x]"

subsection \<open>Functions that describe the results\<close>

text \<open>These functions are not part of the program. They say, without arrays that are
  written in place, what the stages of \<^verbatim>\<open>set_bezier_path\<close> compute; each one is tied to
  the embedding by a lemma below.\<close>

definition con1s :: "real list \<Rightarrow> real list" where
  "con1s b = map (\<lambda>n. 2 * b ! (n - 1) / 3 + b ! n / 3) [1..<length b]"

definition con2s :: "real list \<Rightarrow> real list" where
  "con2s b = map (\<lambda>n. b ! (n - 1) / 3 + 2 * b ! n / 3) [1..<length b]"

definition spline_rel :: "real list \<Rightarrow> real list \<Rightarrow> bool" where
  "spline_rel ac b \<longleftrightarrow>
     length b = length ac \<and> b ! 0 = ac ! 0 \<and> b ! (length ac - 1) = ac ! (length ac - 1)
     \<and> (\<forall>i \<in> set [1..<length ac - 1]. b ! (i - 1) + 4 * b ! i + b ! (i + 1) = 6 * ac ! i)"

definition anchor_vals :: "nat \<Rightarrow> real list \<Rightarrow> bool \<Rightarrow> real list" where
  "anchor_vals off ctlpts is_closed =
     (let xs = map (\<lambda>n. ctlpts ! (n * 6 + off)) [0..<length ctlpts div 6]
      in if is_closed
         then ctlpts ! (length ctlpts - 6 + off) # xs @ [ctlpts ! off, ctlpts ! (6 + off)]
         else xs)"

definition stripped :: "bool \<Rightarrow> real list \<Rightarrow> real list" where
  "stripped is_closed acon = (if is_closed then tl (butlast acon) else acon)"

definition corner_ok :: "SmoothVals \<Rightarrow> real list \<Rightarrow> nat \<Rightarrow> nat \<Rightarrow> nat \<Rightarrow> nat \<Rightarrow> nat \<Rightarrow> nat \<Rightarrow> bool" where
  "corner_ok sv st i1 i2 i3 i4 i5 i6 \<longleftrightarrow>
     angle_between sv (Fin (st ! i1)) (Fin (st ! i2)) (Fin (st ! i3)) (Fin (st ! i4))
       (Fin (st ! i5)) (Fin (st ! i6)) \<noteq> 0"

definition gate1 :: "SmoothVals \<Rightarrow> bool \<Rightarrow> nat \<Rightarrow> real list \<Rightarrow> nat \<Rightarrow> bool" where
  "gate1 sv is_closed num_points st n =
     (if n = 0
      then (if is_closed then corner_ok sv st (num_points - 4) (num_points - 3) 2 3 8 9
            else smooth_specified sv = 0)
      else corner_ok sv st (n * 6 - 4) (n * 6 - 3) (n * 6 + 2) (n * 6 + 3) (n * 6 + 8) (n * 6 + 9))"

definition gate2 :: "SmoothVals \<Rightarrow> bool \<Rightarrow> nat \<Rightarrow> nat \<Rightarrow> real list \<Rightarrow> nat \<Rightarrow> bool" where
  "gate2 sv is_closed num_points len st n =
     (if n = len - 2
      then (if is_closed
            then corner_ok sv st (num_points - 10) (num_points - 9) (num_points - 4)
                   (num_points - 3) 2 3
            else smooth_specified sv = 0)
      else corner_ok sv st (n * 6 + 2) (n * 6 + 3) (n * 6 + 8) (n * 6 + 9) (n * 6 + 14)
             (n * 6 + 15))"

definition step_fun ::
  "SmoothVals \<Rightarrow> bool \<Rightarrow> nat \<Rightarrow> nat \<Rightarrow> real list \<Rightarrow> real list \<Rightarrow> real list \<Rightarrow> real list
     \<Rightarrow> nat \<Rightarrow> real list \<Rightarrow> real list" where
  "step_fun sv is_closed num_points len aconx1 acony1 aconx2 acony2 n st =
     (let st1 = (if gate1 sv is_closed num_points st n
                 then st[n * 6 + 4 := aconx1 ! n, n * 6 + 5 := acony1 ! n] else st)
      in if gate2 sv is_closed num_points len st1 n
         then st1[n * 6 + 6 := aconx2 ! n, n * 6 + 7 := acony2 ! n] else st1)"

definition pre_fun :: "SmoothVals \<Rightarrow> bool \<Rightarrow> real list \<Rightarrow> real list \<Rightarrow> real list \<Rightarrow> real list" where
  "pre_fun sv is_closed aconx2 acony2 st =
     (if is_closed \<and> corner_ok sv st (length st - 4) (length st - 3) 2 3 8 9
      then st[0 := aconx2 ! (length aconx2 - 1), 1 := acony2 ! (length acony2 - 1)]
      else st)"

definition post_fun :: "SmoothVals \<Rightarrow> bool \<Rightarrow> real list \<Rightarrow> real list \<Rightarrow> real list \<Rightarrow> real list" where
  "post_fun sv is_closed aconx1 acony1 st =
     (if is_closed
         \<and> corner_ok sv st (length st - 10) (length st - 9) (length st - 4) (length st - 3) 2 3
      then st[length st - 2 := aconx1 ! (length aconx1 - 1),
              length st - 1 := acony1 ! (length acony1 - 1)]
      else st)"

text \<open>Anchor \<open>k\<close> of a stroke is smooth when its two handles point in opposite directions
  from it, so that the curve has one tangent there.\<close>

definition smooth_at :: "real list \<Rightarrow> nat \<Rightarrow> bool" where
  "smooth_at st k \<longleftrightarrow>
     (let hx = st ! (k * 6) - st ! (k * 6 + 2);
          hy = st ! (k * 6 + 1) - st ! (k * 6 + 3);
          gx = st ! (k * 6 + 4) - st ! (k * 6 + 2);
          gy = st ! (k * 6 + 5) - st ! (k * 6 + 3)
      in hx * gy - hy * gx = 0 \<and> hx * gx + hy * gy \<le> 0)"

text \<open>For the doubles: whether a double is finite, and its value (0 for an infinity and for a NaN,
  which have none); the unit roundoff \<open>2\<^sup>-\<^sup>5\<^sup>3\<close> and half the smallest
  subnormal number, \<open>2\<^sup>-\<^sup>1\<^sup>0\<^sup>7\<^sup>5\<close>, which bound the error of one rounding; and a double that is
  finite and within \<open>e\<close> of the real number \<open>v\<close>.\<close>

primrec is_fin :: "double \<Rightarrow> bool" where
  "is_fin (Num x) = True"
| "is_fin PInf = False"
| "is_fin NInf = False"
| "is_fin NaN = False"

primrec dval :: "double \<Rightarrow> real" where
  "dval (Num x) = val x"
| "dval PInf = 0"
| "dval NInf = 0"
| "dval NaN = 0"

definition unit_roundoff :: real where
  "unit_roundoff = 2 powi (- 53)"

definition underflow_unit :: real where
  "underflow_unit = 2 powi (- 1075)"

definition approx :: "double \<Rightarrow> real \<Rightarrow> real \<Rightarrow> bool" where
  "approx a v e \<longleftrightarrow> is_fin a \<and> \<bar>dval a - v\<bar> \<le> e"

subsection \<open>Settings and strokes used as examples\<close>

definition sv_off :: SmoothVals where
  "sv_off = \<lparr>smooth_specified = 0, ang_min = 60, ang_max = 120\<rparr>"

definition sv_on :: SmoothVals where
  "sv_on = \<lparr>smooth_specified = 1, ang_min = 60, ang_max = 120\<rparr>"

definition zigzag :: "real list" where
  "zigzag = [- 1, - 1, 0, 0, 1, 1,  9, - 1, 10, 0, 11, 1,
             9, 9, 10, 10, 11, 11,  - 1, 9, 0, 10, 1, 11]"

definition line4 :: "real list" where
  "line4 = [0, 0, 0, 1, 0, 0,  0, 0, 3, 3, 0, 0,  0, 0, 6, 5, 0, 0,  0, 0, 9, 7, 0, 0]"

definition triangle :: "real list" where
  "triangle = [0, 0, 0, 0, 0, 0,  627, 0, 627, 0, 627, 0,  0, 627, 0, 627, 0, 627]"

section \<open>Basic facts about arrays and loops\<close>

lemma g_array_index_Some [simp]: "i < length xs \<Longrightarrow> g_array_index xs i = Some (xs ! i)"
  by (simp add: g_array_index_def)

lemma g_array_assign_Some [simp]: "i < length xs \<Longrightarrow> g_array_assign xs i v = Some (xs[i := v])"
  by (simp add: g_array_assign_def)

lemma for_loop_append:
  "for_loop (xs @ ys) body s = (case for_loop xs body s of None \<Rightarrow> None | Some s' \<Rightarrow> for_loop ys body s')"
  by (induction xs arbitrary: s) (auto split: option.splits)

lemma sweep_step_Some:
  assumes "0 < i" "i < length asc" "i < length asd"
  shows "sweep_step i (asc, asd) =
     Some (asc[i := asc ! i / (4 - asc ! (i - 1))],
           asd[i := (asd ! i - asd ! (i - 1)) / (4 - asc ! (i - 1))])"
  using assms by (simp add: sweep_step_def Let_def)

lemma sweep_loop:
  assumes "length asc = n" "length asd = n" "k \<le> n" "1 \<le> k"
  shows "\<exists>asc' asd'. for_loop [1..<k] sweep_step (asc, asd) = Some (asc', asd')
      \<and> length asc' = n \<and> length asd' = n
      \<and> (\<forall>j. j = 0 \<or> k \<le> j \<longrightarrow> asc' ! j = asc ! j \<and> asd' ! j = asd ! j)
      \<and> (\<forall>j. 0 < j \<and> j < k \<longrightarrow> asc' ! j = asc ! j / (4 - asc' ! (j - 1))
                \<and> asd' ! j = (asd ! j - asd' ! (j - 1)) / (4 - asc' ! (j - 1)))"
  using assms(3,4)
proof (induction k)
  case 0
  then show ?case by simp
next
  case (Suc k)
  show ?case
  proof (cases "k = 0")
    case True
    then show ?thesis using assms(1,2) by simp
  next
    case False
    then have k: "1 \<le> k" "k \<le> n" "k < n" using Suc.prems by auto
    from Suc.IH[OF k(2) k(1)] obtain asc' asd' where
      run: "for_loop [1..<k] sweep_step (asc, asd) = Some (asc', asd')"
      and len: "length asc' = n" "length asd' = n"
      and keep: "\<And>j. j = 0 \<or> k \<le> j \<Longrightarrow> asc' ! j = asc ! j \<and> asd' ! j = asd ! j"
      and rec: "\<And>j. 0 < j \<and> j < k \<Longrightarrow> asc' ! j = asc ! j / (4 - asc' ! (j - 1))
                \<and> asd' ! j = (asd ! j - asd' ! (j - 1)) / (4 - asc' ! (j - 1))"
      by blast
    have upt: "[1..<Suc k] = [1..<k] @ [k]" using k(1) by simp
    let ?asc = "asc'[k := asc' ! k / (4 - asc' ! (k - 1))]"
    let ?asd = "asd'[k := (asd' ! k - asd' ! (k - 1)) / (4 - asc' ! (k - 1))]"
    have step: "for_loop [1..<Suc k] sweep_step (asc, asd) = Some (?asc, ?asd)"
      unfolding upt for_loop_append run using k len by (simp add: sweep_step_Some)
    have a: "\<And>j. j = 0 \<or> Suc k \<le> j \<Longrightarrow> ?asc ! j = asc ! j \<and> ?asd ! j = asd ! j"
      using keep k by auto
    have b: "\<And>j. 0 < j \<and> j < Suc k \<Longrightarrow> ?asc ! j = asc ! j / (4 - ?asc ! (j - 1))
                \<and> ?asd ! j = (asd ! j - ?asd ! (j - 1)) / (4 - ?asc ! (j - 1))"
    proof -
      fix j assume j: "0 < j \<and> j < Suc k"
      show "?asc ! j = asc ! j / (4 - ?asc ! (j - 1))
                \<and> ?asd ! j = (asd ! j - ?asd ! (j - 1)) / (4 - ?asc ! (j - 1))"
      proof (cases "j = k")
        case True
        then show ?thesis using keep[of k] k len by simp
      next
        case False
        then have "j < k" using j by simp
        then show ?thesis using rec[of j] j k len by simp
      qed
    qed
    have len': "length ?asc = n" "length ?asd = n" using len by simp_all
    from step len' a b show ?thesis by blast
  qed
qed

lemma back_step_Some:
  assumes "i < length asd" "i < length asc" "Suc i < length asb"
  shows "back_step asc asd i asb = Some (asb[i := asd ! i - asc ! i * asb ! (Suc i)])"
  using assms by (simp add: back_step_def)

lemma back_loop:
  assumes "length asc = n" "length asd = n" "length asb = n" "m < n"
  shows "\<exists>asb'. for_loop (rev [m..<n - 1]) (back_step asc asd) asb = Some asb'
      \<and> length asb' = n
      \<and> (\<forall>j. j < m \<or> n - 1 \<le> j \<longrightarrow> asb' ! j = asb ! j)
      \<and> (\<forall>j. m \<le> j \<and> j < n - 1 \<longrightarrow> asb' ! j = asd ! j - asc ! j * asb' ! (Suc j))"
  using assms(4)
proof (induction "n - 1 - m" arbitrary: m)
  case 0
  then have le: "n - 1 \<le> m" by linarith
  then have "for_loop (rev [m..<n - 1]) (back_step asc asd) asb = Some asb" by simp
  moreover have "\<forall>j. m \<le> j \<and> j < n - 1 \<longrightarrow> asb ! j = asd ! j - asc ! j * asb ! (Suc j)"
    using le by auto
  ultimately show ?case using assms(3) by blast
next
  case (Suc d)
  then have m: "m < n - 1" "Suc m < n" "d = n - 1 - Suc m" by auto
  from Suc.hyps(1)[OF m(3) m(2)] obtain asb' where
    run: "for_loop (rev [Suc m..<n - 1]) (back_step asc asd) asb = Some asb'"
    and len: "length asb' = n"
    and keep: "\<And>j. j < Suc m \<or> n - 1 \<le> j \<Longrightarrow> asb' ! j = asb ! j"
    and rec: "\<And>j. Suc m \<le> j \<and> j < n - 1 \<Longrightarrow> asb' ! j = asd ! j - asc ! j * asb' ! (Suc j)"
    by blast
  have upt: "rev [m..<n - 1] = rev [Suc m..<n - 1] @ [m]"
    using m(1) by (simp add: upt_conv_Cons)
  let ?asb = "asb'[m := asd ! m - asc ! m * asb' ! (Suc m)]"
  have step: "for_loop (rev [m..<n - 1]) (back_step asc asd) asb = Some ?asb"
    unfolding upt for_loop_append run using m len assms(1,2) by (simp add: back_step_Some)
  have a: "\<And>j. j < m \<or> n - 1 \<le> j \<Longrightarrow> ?asb ! j = asb ! j"
    using keep m by auto
  have b: "\<And>j. m \<le> j \<and> j < n - 1 \<Longrightarrow> ?asb ! j = asd ! j - asc ! j * ?asb ! (Suc j)"
  proof -
    fix j assume j: "m \<le> j \<and> j < n - 1"
    show "?asb ! j = asd ! j - asc ! j * ?asb ! (Suc j)"
    proof (cases "j = m")
      case True
      then show ?thesis using m len by simp
    next
      case False
      then have "Suc m \<le> j" using j by simp
      then show ?thesis using rec[of j] j m len by simp
    qed
  qed
  have len': "length ?asb = n" using len by simp
  from step len' a b show ?case by blast
qed

text \<open>What the solver computes, as relations between the entries of its arrays.\<close>

lemma triagonal_solve_relations:
  assumes "length asb = n" "length rhs = n" "1 \<le> n"
  shows "\<exists>x c d. triagonal_solve asb rhs = Some (x, d)
      \<and> length x = n \<and> length c = n \<and> length d = n
      \<and> c ! 0 = 1 / 4 \<and> d ! 0 = rhs ! 0 / 4
      \<and> (\<forall>j. 0 < j \<and> j < n \<longrightarrow> c ! j = 1 / (4 - c ! (j - 1))
                \<and> d ! j = (rhs ! j - d ! (j - 1)) / (4 - c ! (j - 1)))
      \<and> x ! (n - 1) = d ! (n - 1)
      \<and> (\<forall>j. j < n - 1 \<longrightarrow> x ! j = d ! j - c ! j * x ! (Suc j))"
proof -
  let ?c0 = "(replicate n (1::real))[0 := 1 * 0.25]"
  let ?d0 = "rhs[0 := rhs ! 0 * 0.25]"
  have l0: "length ?c0 = n" "length ?d0 = n" using assms by simp_all
  from sweep_loop[OF l0 le_refl assms(3)] obtain c d where
    run: "for_loop [1..<n] sweep_step (?c0, ?d0) = Some (c, d)"
    and len: "length c = n" "length d = n"
    and keep: "\<And>j. j = 0 \<or> n \<le> j \<Longrightarrow> c ! j = ?c0 ! j \<and> d ! j = ?d0 ! j"
    and rec: "\<And>j. 0 < j \<and> j < n \<Longrightarrow> c ! j = ?c0 ! j / (4 - c ! (j - 1))
                \<and> d ! j = (?d0 ! j - d ! (j - 1)) / (4 - c ! (j - 1))"
    by blast
  let ?b0 = "asb[n - 1 := d ! (n - 1)]"
  have lb: "length ?b0 = n" using assms by simp
  have "0 < n" using assms(3) by simp
  from back_loop[OF len lb this] obtain x where
    runb: "for_loop (rev [0..<n - 1]) (back_step c d) ?b0 = Some x"
    and lenx: "length x = n"
    and keepx: "\<And>j. j < 0 \<or> n - 1 \<le> j \<Longrightarrow> x ! j = ?b0 ! j"
    and recx: "\<And>j. 0 \<le> j \<and> j < n - 1 \<Longrightarrow> x ! j = d ! j - c ! j * x ! (Suc j)"
    by blast
  have solve: "triagonal_solve asb rhs = Some (x, d)"
    using assms run runb len by (simp add: triagonal_solve_def)
  have c0: "c ! 0 = 1 / 4" using keep[of 0] assms by simp
  have d0: "d ! 0 = rhs ! 0 / 4" using keep[of 0] assms by simp
  have rel: "\<And>j. 0 < j \<and> j < n \<Longrightarrow> c ! j = 1 / (4 - c ! (j - 1))
                \<and> d ! j = (rhs ! j - d ! (j - 1)) / (4 - c ! (j - 1))"
    using rec assms by simp
  have xl: "x ! (n - 1) = d ! (n - 1)" using keepx[of "n - 1"] assms by simp
  show ?thesis
    using solve lenx len c0 d0 rel xl recx by blast
qed

lemma tridiag_row:
  assumes "i < n"
  shows "(\<Sum>j<n. tridiag i j * x ! j) =
     (if 0 < i then x ! (i - 1) else 0) + 4 * x ! i + (if Suc i < n then x ! (Suc i) else 0)"
proof -
  let ?S = "{j. j < n \<and> (j = i \<or> Suc j = i \<or> j = Suc i)}"
  have "(\<Sum>j<n. tridiag i j * x ! j) = (\<Sum>j\<in>?S. tridiag i j * x ! j)"
    by (rule sum.mono_neutral_right) (auto simp: tridiag_def)
  also have "\<dots> = (if 0 < i then x ! (i - 1) else 0) + 4 * x ! i + (if Suc i < n then x ! (Suc i) else 0)"
  proof (cases i)
    case 0
    show ?thesis
    proof (cases "Suc i < n")
      case True
      then have "?S = {0, Suc 0}" using 0 by auto
      then show ?thesis using True 0 by (simp add: tridiag_def)
    next
      case False
      then have "?S = {0}" using 0 assms by auto
      then show ?thesis using False 0 by (simp add: tridiag_def)
    qed
  next
    case (Suc k)
    show ?thesis
    proof (cases "Suc i < n")
      case True
      then have "?S = {k, Suc k, Suc (Suc k)}" using Suc by auto
      then show ?thesis using True Suc by (simp add: tridiag_def)
    next
      case False
      then have "?S = {k, Suc k}" using Suc assms by auto
      then show ?thesis using False Suc by (simp add: tridiag_def)
    qed
  qed
  finally show ?thesis .
qed

lemma pivot_bounds:
  fixes c :: "real list"
  assumes "c ! 0 = 1 / 4"
    and "\<forall>j. 0 < j \<and> j < n \<longrightarrow> c ! j = 1 / (4 - c ! (j - 1))"
  shows "j < n \<Longrightarrow> 1 / 4 \<le> c ! j \<and> c ! j \<le> 1 / 3"
proof (induction j)
  case 0
  then show ?case using assms(1) by simp
next
  case (Suc j)
  then have b: "1 / 4 \<le> c ! j" "c ! j \<le> 1 / 3" by simp_all
  have e: "c ! Suc j = 1 / (4 - c ! j)" using assms(2) Suc.prems by simp
  have p: "4 - c ! j \<ge> 11 / 3" "4 - c ! j \<le> 15 / 4" using b by simp_all
  then have pos: "0 < 4 - c ! j" by simp
  have "1 / (4 - c ! j) \<le> 1 / (11 / 3)" using p pos by (intro divide_left_mono) simp_all
  moreover have "1 / (15 / 4) \<le> 1 / (4 - c ! j)" using p pos by (intro divide_left_mono) simp_all
  ultimately show ?case unfolding e by simp
qed

lemma thomas_rows:
  fixes x c d rhs :: "real list"
  assumes n: "1 \<le> n"
    and c0: "c ! 0 = 1 / 4" and d0: "d ! 0 = rhs ! 0 / 4"
    and rel: "\<forall>j. 0 < j \<and> j < n \<longrightarrow> c ! j = 1 / (4 - c ! (j - 1))
                \<and> d ! j = (rhs ! j - d ! (j - 1)) / (4 - c ! (j - 1))"
    and xl: "x ! (n - 1) = d ! (n - 1)"
    and bks: "\<forall>j. j < n - 1 \<longrightarrow> x ! j = d ! j - c ! j * x ! (Suc j)"
    and i: "i < n"
  shows "(if 0 < i then x ! (i - 1) else 0) + 4 * x ! i + (if Suc i < n then x ! (Suc i) else 0)
           = rhs ! i"
proof -
  have crel: "\<forall>j. 0 < j \<and> j < n \<longrightarrow> c ! j = 1 / (4 - c ! (j - 1))" using rel by simp
  note pb = pivot_bounds[OF c0 crel]
  show ?thesis
  proof (cases "i = 0")
    case True
    show ?thesis
    proof (cases "Suc i < n")
      case True
      then have "x ! 0 = d ! 0 - c ! 0 * x ! (Suc 0)" using bks \<open>i = 0\<close> by simp
      then show ?thesis using True \<open>i = 0\<close> c0 d0 by simp
    next
      case False
      then have "n = 1" using n \<open>i = 0\<close> by simp
      then show ?thesis using xl d0 \<open>i = 0\<close> by simp
    qed
  next
    case False
    then obtain k where k: "i = Suc k" by (cases i) auto
    then have kn: "k < n" "k < n - 1" using i by simp_all
    define p where "p = 4 - c ! k"
    have ppos: "p \<noteq> 0" using pb[OF kn(1)] by (simp add: p_def)
    have ci: "c ! Suc k = 1 / p" and di: "d ! Suc k = (rhs ! Suc k - d ! k) / p"
      using rel i k by (simp_all add: p_def)
    have xp: "x ! k = d ! k - c ! k * x ! Suc k"
      using bks kn by simp
    have rhs: "rhs ! Suc k = d ! Suc k * p + d ! k" using di ppos by (simp add: field_simps)
    show ?thesis
    proof (cases "Suc i < n")
      case True
      then have xi: "x ! Suc k = d ! Suc k - c ! Suc k * x ! (Suc (Suc k))" using bks k by simp
      have "d ! Suc k * p = (x ! Suc k + x ! (Suc (Suc k)) / p) * p" using xi ci by simp
      also have "\<dots> = x ! Suc k * p + x ! (Suc (Suc k))" using ppos by (simp add: field_simps)
      finally show ?thesis using True k rhs xp by (simp add: p_def algebra_simps)
    next
      case False
      then have "Suc k = n - 1" using i k by simp
      then have xi: "x ! Suc k = d ! Suc k" using xl by simp
      show ?thesis using False k rhs xp xi by (simp add: p_def algebra_simps)
    qed
  qed
qed

section \<open>The stages of \<^verbatim>\<open>set_bezier_path\<close>\<close>

lemma triagonal_solve_rows:
  assumes "length asb = length rhs" and "1 \<le> length rhs"
  shows "\<exists>x d. triagonal_solve asb rhs = Some (x, d) \<and> length x = length rhs
           \<and> length d = length rhs
           \<and> (\<forall>i<length rhs. (if 0 < i then x ! (i - 1) else 0) + 4 * x ! i
                   + (if Suc i < length rhs then x ! (Suc i) else 0) = rhs ! i)"
proof -
  from triagonal_solve_relations[OF assms(1) refl assms(2)] obtain x c d where
    solve: "triagonal_solve asb rhs = Some (x, d)"
    and len: "length x = length rhs" "length d = length rhs"
    and c0: "c ! 0 = 1 / 4" and d0: "d ! 0 = rhs ! 0 / 4"
    and rel: "\<forall>j. 0 < j \<and> j < length rhs \<longrightarrow> c ! j = 1 / (4 - c ! (j - 1))
                \<and> d ! j = (rhs ! j - d ! (j - 1)) / (4 - c ! (j - 1))"
    and xl: "x ! (length rhs - 1) = d ! (length rhs - 1)"
    and bks: "\<forall>j. j < length rhs - 1 \<longrightarrow> x ! j = d ! j - c ! j * x ! (Suc j)"
    by blast
  have "\<forall>i<length rhs. (if 0 < i then x ! (i - 1) else 0) + 4 * x ! i
                   + (if Suc i < length rhs then x ! (Suc i) else 0) = rhs ! i"
    using thomas_rows[OF assms(2) c0 d0 rel xl bks] by blast
  with solve len show ?thesis by blast
qed

lemma anchor_step_Some:
  assumes "n < length acx" "n < length acy" "n * 6 + 3 < length ctlpts"
  shows "anchor_step ctlpts n (acx, acy)
           = Some (acx[n := ctlpts ! (n * 6 + 2)], acy[n := ctlpts ! (n * 6 + 3)])"
  using assms by (simp add: anchor_step_def)

lemma update_at_split:
  assumes "length xs = k" "k < length ys"
  shows "(xs @ drop k ys)[k := v] = (xs @ [v]) @ drop (Suc k) ys"
proof -
  have "drop k ys = ys ! k # drop (Suc k) ys" using assms(2) by (simp add: Cons_nth_drop_Suc)
  then show ?thesis using assms(1) by (simp add: list_update_append)
qed

lemma anchor_loop:
  assumes "length acx = len" "length acy = len" "6 * len \<le> length ctlpts" "k \<le> len"
  shows "for_loop [0..<k] (anchor_step ctlpts) (acx, acy)
           = Some (map (\<lambda>n. ctlpts ! (n * 6 + 2)) [0..<k] @ drop k acx,
                   map (\<lambda>n. ctlpts ! (n * 6 + 3)) [0..<k] @ drop k acy)"
  using assms(4)
proof (induction k)
  case 0
  then show ?case by simp
next
  case (Suc k)
  then have k: "k < len" "k \<le> len" by simp_all
  have b: "k * 6 + 3 < length ctlpts" using k(1) assms(3) by simp
  show ?case
    using Suc.IH[OF k(2)] k(1) assms(1,2) b
    by (simp add: for_loop_append anchor_step_Some update_at_split)
qed

lemma anchor_arrays_eq:
  assumes "18 \<le> length ctlpts"
  shows "anchor_arrays ctlpts is_closed
           = Some (anchor_vals 2 ctlpts is_closed, anchor_vals 3 ctlpts is_closed)"
proof -
  let ?len = "length ctlpts div 6"
  have l: "length (g_array_set_size [] ?len) = ?len" by (simp add: g_array_set_size_def)
  have b: "6 * ?len \<le> length ctlpts" by simp
  have loop: "for_loop [0..<?len] (anchor_step ctlpts)
                (g_array_set_size [] ?len, g_array_set_size [] ?len)
              = Some (map (\<lambda>n. ctlpts ! (n * 6 + 2)) [0..<?len],
                      map (\<lambda>n. ctlpts ! (n * 6 + 3)) [0..<?len])"
    using anchor_loop[OF l l b le_refl] l by simp
  have e: "length ctlpts - 4 = length ctlpts - 6 + 2" "length ctlpts - 3 = length ctlpts - 6 + 3"
    using assms by simp_all
  show ?thesis
    using loop l assms unfolding anchor_arrays_def anchor_vals_def Let_def e
    by simp
qed

lemma length_anchor_vals:
  "length (anchor_vals off ctlpts is_closed)
     = (if is_closed then length ctlpts div 6 + 3 else length ctlpts div 6)"
  by (simp add: anchor_vals_def Let_def)

lemma rhs_step_Some:
  assumes "n < length asd" "Suc n < length ac"
  shows "rhs_step ac n asd = Some (asd[n := 6 * ac ! (Suc n)])"
  using assms by (simp add: rhs_step_def)

lemma rhs_loop:
  assumes "length asd = n" "k \<le> n" "n < length ac" "1 \<le> k"
  shows "\<exists>asd'. for_loop [1..<k] (rhs_step ac) asd = Some asd' \<and> length asd' = n
           \<and> (\<forall>j. j = 0 \<or> k \<le> j \<longrightarrow> asd' ! j = asd ! j)
           \<and> (\<forall>j. 0 < j \<and> j < k \<longrightarrow> asd' ! j = 6 * ac ! (Suc j))"
  using assms(2,4)
proof (induction k)
  case 0
  then show ?case by simp
next
  case (Suc k)
  show ?case
  proof (cases "k = 0")
    case True
    then show ?thesis using assms(1) by simp
  next
    case False
    then have k: "1 \<le> k" "k \<le> n" "k < n" using Suc.prems by auto
    from Suc.IH[OF k(2) k(1)] obtain asd' where
      run: "for_loop [1..<k] (rhs_step ac) asd = Some asd'"
      and len: "length asd' = n"
      and keep: "\<forall>j. j = 0 \<or> k \<le> j \<longrightarrow> asd' ! j = asd ! j"
      and rec: "\<forall>j. 0 < j \<and> j < k \<longrightarrow> asd' ! j = 6 * ac ! (Suc j)"
      by blast
    have upt: "[1..<Suc k] = [1..<k] @ [k]" using k(1) by simp
    let ?asd = "asd'[k := 6 * ac ! (Suc k)]"
    have step: "for_loop [1..<Suc k] (rhs_step ac) asd = Some ?asd"
      unfolding upt for_loop_append run using k len assms(3) by (simp add: rhs_step_Some)
    have a: "\<forall>j. j = 0 \<or> Suc k \<le> j \<longrightarrow> ?asd ! j = asd ! j"
      using keep k by auto
    have b: "\<forall>j. 0 < j \<and> j < Suc k \<longrightarrow> ?asd ! j = 6 * ac ! (Suc j)"
      using rec k len by (auto simp: nth_list_update less_Suc_eq)
    have len': "length ?asd = n" using len by simp
    from step len' a b show ?thesis by blast
  qed
qed

lemma con_step_Some:
  assumes "0 < n" "n < length asb"
  shows "con_step asb n (acon1, acon2)
           = Some (acon1 @ [2 * asb ! (n - 1) / 3 + asb ! n / 3],
                   acon2 @ [asb ! (n - 1) / 3 + 2 * asb ! n / 3])"
  using assms by (simp add: con_step_def Let_def)

lemma con_loop:
  assumes "k \<le> length asb" "1 \<le> k"
  shows "for_loop [1..<k] (con_step asb) (acon1, acon2)
           = Some (acon1 @ map (\<lambda>n. 2 * asb ! (n - 1) / 3 + asb ! n / 3) [1..<k],
                   acon2 @ map (\<lambda>n. asb ! (n - 1) / 3 + 2 * asb ! n / 3) [1..<k])"
  using assms
proof (induction k)
  case 0
  then show ?case by simp
next
  case (Suc k)
  show ?case
  proof (cases "k = 0")
    case True
    then show ?thesis by simp
  next
    case False
    then have k: "1 \<le> k" "k \<le> length asb" "k < length asb" "0 < k" using Suc.prems by auto
    have upt: "[1..<Suc k] = [1..<k] @ [k]" using k(1) by simp
    show ?thesis
      unfolding upt for_loop_append Suc.IH[OF k(2) k(1)]
      using k by (simp add: con_step_Some)
  qed
qed

lemma length_set_size [simp]: "length (g_array_set_size xs n) = n"
  by (simp add: g_array_set_size_def)

lemma length_con1s [simp]: "length (con1s b) = length b - 1"
  by (simp add: con1s_def)

lemma length_con2s [simp]: "length (con2s b) = length b - 1"
  by (simp add: con2s_def)

lemma axis_pass_three:
  assumes "length ac = 3"
  shows "\<exists>asd' b. axis_pass asd asb ac = Some (asd', b, con1s b, con2s b)
           \<and> length asd' = length ac - 2 \<and> spline_rel ac b"
proof -
  let ?v = "1.50 * ac ! 1 - 0.25 * ac ! 0 - 0.25 * ac ! 2"
  let ?asb = "(g_array_set_size asb 1)[0 := ?v]"
  let ?b = "ac ! 0 # ?asb @ [ac ! 2]"
  have w: "?asb = [?v]" by (cases asb) (simp_all add: g_array_set_size_def)
  have b: "?b = [ac ! 0, ?v, ac ! 2]" unfolding w by simp
  have lenb: "length ?b = 3" unfolding b by simp
  have loop: "for_loop [1..<3] (con_step ?b) ([], []) = Some (con1s ?b, con2s ?b)"
    using con_loop[of 3 ?b "[]" "[]"] unfolding con1s_def con2s_def lenb by simp
  have run: "axis_pass asd asb ac = Some (g_array_set_size asd 1, ?b, con1s ?b, con2s ?b)"
    unfolding axis_pass_def axis_pass_with_def Let_def assms using assms loop by simp
  have "spline_rel ac ?b"
    unfolding b spline_rel_def using assms
    by (auto simp: less_Suc_eq numeral_3_eq_3 numeral_2_eq_2)
  with run assms show ?thesis by auto
qed

lemma axis_pass_more:
  assumes "4 \<le> length ac"
  shows "\<exists>asd' b. axis_pass asd asb ac = Some (asd', b, con1s b, con2s b)
           \<and> length asd' = length ac - 2 \<and> spline_rel ac b"
proof -
  define m where "m = length ac"
  define n where "n = m - 2"
  have mn: "4 \<le> m" "2 \<le> n" "n < m" "m - 3 = n - 1" "m - 2 = n" "m - 1 = Suc n"
    using assms by (simp_all add: m_def n_def)
  let ?asd0 = "g_array_set_size asd n"
  let ?asb0 = "g_array_set_size asb n"
  let ?asd1 = "?asd0[0 := 6 * ac ! 1 - ac ! 0]"
  have l1: "length ?asd1 = n" by simp
  have kn: "n - 1 \<le> n" "1 \<le> n - 1" "n < length ac" using mn by (simp_all add: m_def)
  from rhs_loop[OF l1 kn(1) kn(3) kn(2)] obtain asd2 where
    run2: "for_loop [1..<n - 1] (rhs_step ac) ?asd1 = Some asd2"
    and len2: "length asd2 = n"
    and keep2: "\<forall>j. j = 0 \<or> n - 1 \<le> j \<longrightarrow> asd2 ! j = ?asd1 ! j"
    and rec2: "\<forall>j. 0 < j \<and> j < n - 1 \<longrightarrow> asd2 ! j = 6 * ac ! (Suc j)"
    by blast
  let ?rhs = "asd2[n - 1 := 6 * ac ! n - ac ! (Suc n)]"
  have lr: "length ?asb0 = length ?rhs" "1 \<le> length ?rhs" using len2 mn by simp_all
  from triagonal_solve_rows[OF lr] obtain x d where
    solve: "triagonal_solve ?asb0 ?rhs = Some (x, d)"
    and lenx: "length x = n" and lend: "length d = n"
    and rows: "\<forall>i<n. (if 0 < i then x ! (i - 1) else 0) + 4 * x ! i
                   + (if Suc i < n then x ! (Suc i) else 0) = ?rhs ! i"
    using len2 by auto
  let ?b = "ac ! 0 # x @ [ac ! (Suc n)]"
  have lenb: "length ?b = m" using lenx mn by simp
  have loop: "for_loop [1..<m] (con_step ?b) ([], []) = Some (con1s ?b, con2s ?b)"
    using con_loop[of m ?b "[]" "[]"] lenb mn unfolding con1s_def con2s_def lenb by simp
  have n1: "n \<noteq> 1" using mn by simp
  have run: "axis_pass asd asb ac = Some (d, ?b, con1s ?b, con2s ?b)"
    unfolding axis_pass_def axis_pass_with_def Let_def m_def[symmetric] mn
    using n1 mn run2 len2 solve loop by (simp add: m_def[symmetric])
  have r0: "?rhs ! 0 = 6 * ac ! 1 - ac ! 0" using keep2 len2 mn by simp
  have rl: "?rhs ! (n - 1) = 6 * ac ! n - ac ! (Suc n)" using len2 mn by simp
  have rm: "\<And>j. 0 < j \<Longrightarrow> j < n - 1 \<Longrightarrow> ?rhs ! j = 6 * ac ! (Suc j)"
    using rec2 len2 by simp
  have eqs: "b' ! (i - 1) + 4 * b' ! i + b' ! (i + 1) = 6 * ac ! i"
    if i: "0 < i" "i < m - 1" and b': "b' = ?b" for i b'
  proof -
    obtain k where k: "i = Suc k" using i(1) by (cases i) auto
    then have kn: "k < n" using i(2) mn by simp
    have row: "(if 0 < k then x ! (k - 1) else 0) + 4 * x ! k
                   + (if Suc k < n then x ! (Suc k) else 0) = ?rhs ! k"
      using rows kn by blast
    have bi: "?b ! Suc k = x ! k" using kn lenx by (simp add: nth_append)
    have bp: "?b ! k = (if 0 < k then x ! (k - 1) else ac ! 0)"
      using kn lenx by (cases k) (simp_all add: nth_append)
    have bn: "?b ! Suc (Suc k) = (if Suc k < n then x ! Suc k else ac ! Suc n)"
      using kn lenx by (auto simp: nth_append)
    have rk: "?rhs ! k = 6 * ac ! Suc k - (if 0 < k then 0 else ac ! 0)
                 - (if Suc k < n then 0 else ac ! Suc n)"
    proof (cases "k = 0")
      case True
      then show ?thesis using r0 mn by simp
    next
      case False
      show ?thesis
      proof (cases "Suc k < n")
        case True
        then show ?thesis using rm[of k] False by simp
      next
        case False
        then have "k = n - 1" using kn by simp
        then show ?thesis using rl mn \<open>k \<noteq> 0\<close> by simp
      qed
    qed
    show ?thesis
      unfolding b' k using row rk bi bp bn by (simp split: if_splits)
  qed
  have s1: "length ?b = length ac" using lenb by (simp add: m_def)
  have s2: "?b ! 0 = ac ! 0" by simp
  have "?b ! Suc n = ac ! Suc n" using lenx by (simp add: nth_append)
  then have s3: "?b ! (length ac - 1) = ac ! (length ac - 1)"
    using mn by (simp add: m_def[symmetric])
  have s4: "\<forall>i \<in> set [1..<length ac - 1]. ?b ! (i - 1) + 4 * ?b ! i + ?b ! (i + 1) = 6 * ac ! i"
    using eqs by (auto simp: m_def)
  have "spline_rel ac ?b"
    unfolding spline_rel_def using s1 s2 s3 s4 by blast
  with run lend mn show ?thesis unfolding m_def by auto
qed

lemma axis_pass_spline:
  assumes "3 \<le> length ac"
  shows "\<exists>asd' b. axis_pass asd asb ac = Some (asd', b, con1s b, con2s b)
           \<and> length asd' = length ac - 2 \<and> spline_rel ac b"
proof (cases "length ac = 3")
  case True
  then show ?thesis by (rule axis_pass_three)
next
  case False
  then have "4 \<le> length ac" using assms by simp
  then show ?thesis by (rule axis_pass_more)
qed

lemma strip_padding_eq:
  assumes "is_closed \<longrightarrow> 2 \<le> length acon"
  shows "strip_padding is_closed acon = Some (stripped is_closed acon)"
proof (cases is_closed)
  case False
  then show ?thesis by (simp add: strip_padding_def stripped_def)
next
  case True
  then have l: "2 \<le> length acon" using assms by simp
  then have a: "g_array_remove_index acon (length acon - 1) = Some (butlast acon)"
    by (simp add: g_array_remove_index_def butlast_conv_take)
  have b: "g_array_remove_index (butlast acon) 0 = Some (tl (butlast acon))"
    using l by (simp add: g_array_remove_index_def drop_Suc)
  show ?thesis using True a b by (simp add: strip_padding_def stripped_def)
qed

lemma length_stripped:
  "length (stripped is_closed acon) = (if is_closed then length acon - 2 else length acon)"
  by (auto simp: stripped_def)

lemma control_arrays_spline:
  assumes "18 \<le> length ctlpts"
  shows "\<exists>bx by. control_arrays ctlpts is_closed
             = Some (stripped is_closed (con1s bx), stripped is_closed (con2s bx),
                     stripped is_closed (con1s by), stripped is_closed (con2s by))
           \<and> spline_rel (anchor_vals 2 ctlpts is_closed) bx
           \<and> spline_rel (anchor_vals 3 ctlpts is_closed) by"
proof -
  let ?acx = "anchor_vals 2 ctlpts is_closed"
  let ?acy = "anchor_vals 3 ctlpts is_closed"
  have len3: "3 \<le> length ctlpts div 6" using assms by simp
  have lx: "3 \<le> length ?acx" and ly: "3 \<le> length ?acy"
    using len3 by (simp_all add: length_anchor_vals)
  from axis_pass_spline[OF lx, of "[]" "[]"] obtain asd bx where
    px: "axis_pass [] [] ?acx = Some (asd, bx, con1s bx, con2s bx)"
    and sx: "spline_rel ?acx bx"
    by blast
  from axis_pass_spline[OF ly, of asd bx] obtain asd' "by" where
    py: "axis_pass asd bx ?acy = Some (asd', by, con1s by, con2s by)"
    and sy: "spline_rel ?acy by"
    by blast
  have lbx: "length bx = length ?acx" and lby: "length by = length ?acy"
    using sx sy by (simp_all add: spline_rel_def)
  have c: "is_closed \<longrightarrow> 2 \<le> length (con1s bx)" "is_closed \<longrightarrow> 2 \<le> length (con2s bx)"
    "is_closed \<longrightarrow> 2 \<le> length (con1s by)" "is_closed \<longrightarrow> 2 \<le> length (con2s by)"
    using lbx lby len3 by (simp_all add: length_anchor_vals)
  have "control_arrays ctlpts is_closed
          = Some (stripped is_closed (con1s bx), stripped is_closed (con2s bx),
                  stripped is_closed (con1s by), stripped is_closed (con2s by))"
    unfolding control_arrays_def
    by (simp add: anchor_arrays_eq[OF assms] px py strip_padding_eq[OF c(1)]
        strip_padding_eq[OF c(2)] strip_padding_eq[OF c(3)] strip_padding_eq[OF c(4)])
  with sx sy show ?thesis by blast
qed

lemma angle_at_Some:
  assumes "i1 < length st" "i2 < length st" "i3 < length st" "i4 < length st"
    "i5 < length st" "i6 < length st"
  shows "angle_at sv st i1 i2 i3 i4 i5 i6 = Some (corner_ok sv st i1 i2 i3 i4 i5 i6)"
  using assms by (simp add: angle_at_def corner_ok_def)

lemma put_con_Some:
  assumes "nx < length aconx" "ny < length acony" "i < length st" "j < length st"
  shows "put_con st i j aconx acony nx ny = Some (st[i := aconx ! nx, j := acony ! ny])"
  using assms by (simp add: put_con_def)

lemma length_step_fun [simp]:
  "length (step_fun sv is_closed num_points len aconx1 acony1 aconx2 acony2 n st) = length st"
  by (simp add: step_fun_def Let_def)

lemma outgoing_step_eq:
  assumes "length st = num_points" "18 \<le> num_points" "n * 6 + 9 < num_points"
    and "n < length aconx1" "n < length acony1"
  shows "outgoing_step sv is_closed num_points aconx1 acony1 n st
           = Some (if gate1 sv is_closed num_points st n
                   then st[n * 6 + 4 := aconx1 ! n, n * 6 + 5 := acony1 ! n] else st)"
  using assms
  by (cases "n = 0") (simp_all add: outgoing_step_def angle_at_Some put_con_Some gate1_def)

lemma incoming_step_eq:
  assumes "length st = num_points" "18 \<le> num_points" "n * 6 + 9 < num_points"
    and "n \<noteq> len - 2 \<longrightarrow> n * 6 + 15 < num_points"
    and "n < length aconx2" "n < length acony2"
  shows "incoming_step sv is_closed num_points len aconx2 acony2 n st
           = Some (if gate2 sv is_closed num_points len st n
                   then st[n * 6 + 6 := aconx2 ! n, n * 6 + 7 := acony2 ! n] else st)"
  using assms
  by (cases "n = len - 2") (simp_all add: incoming_step_def angle_at_Some put_con_Some gate2_def)

lemma interior_step_eq:
  assumes np: "length st = num_points" "18 \<le> num_points" "len = num_points div 6"
    and n: "n < len - 1"
    and ar: "n < length aconx1" "n < length acony1" "n < length aconx2" "n < length acony2"
  shows "interior_step sv is_closed num_points len aconx1 acony1 aconx2 acony2 n st
           = Some (step_fun sv is_closed num_points len aconx1 acony1 aconx2 acony2 n st)"
proof -
  have l6: "6 * len \<le> num_points" using np(3) by simp
  have b: "n * 6 + 9 < num_points" using n l6 by simp
  have b2: "n \<noteq> len - 2 \<longrightarrow> n * 6 + 15 < num_points" using n l6 by auto
  let ?st1 = "if gate1 sv is_closed num_points st n
                 then st[n * 6 + 4 := aconx1 ! n, n * 6 + 5 := acony1 ! n] else st"
  have l1: "length ?st1 = num_points" using np(1) by simp
  show ?thesis
    unfolding interior_step_def outgoing_step_eq[OF np(1,2) b ar(1,2)] step_fun_def Let_def
    using incoming_step_eq[OF l1 np(2) b b2 ar(3,4)] by simp
qed

lemma max_index:
  fixes f :: "nat \<Rightarrow> real"
  assumes "0 < m"
  shows "\<exists>i<m. \<forall>j<m. f j \<le> f i"
  using assms
proof (induction m)
  case 0
  then show ?case by simp
next
  case (Suc m)
  show ?case
  proof (cases "m = 0")
    case True
    then show ?thesis by simp
  next
    case False
    then obtain i where i: "i < m" "\<forall>j<m. f j \<le> f i" using Suc.IH by auto
    show ?thesis
    proof (cases "f m \<le> f i")
      case True
      then have "\<forall>j<Suc m. f j \<le> f i" using i(2) by (simp add: less_Suc_eq)
      then show ?thesis using i(1) less_Suc_eq by blast
    next
      case False
      then have "\<forall>j<Suc m. f j \<le> f m" using i(2) by (auto simp: less_Suc_eq intro: order_trans)
      then show ?thesis by blast
    qed
  qed
qed

lemma spline_unique:
  assumes b: "spline_rel ac b" and b': "spline_rel ac b'"
  shows "b = b'"
proof (rule nth_equalityI)
  show len: "length b = length b'" using b b' by (simp add: spline_rel_def)
  fix k assume k: "k < length b"
  define m where "m = length ac"
  define z where "z i = b ! i - b' ! i" for i
  have lm: "length b = m" "length b' = m" using b b' by (simp_all add: spline_rel_def m_def)
  have z0: "z 0 = 0" and zl: "z (m - 1) = 0"
    using b b' by (simp_all add: spline_rel_def z_def m_def)
  have zi: "z (i - 1) + 4 * z i + z (i + 1) = 0" if "0 < i" "i < m - 1" for i
  proof -
    have "i \<in> set [1..<length ac - 1]" using that by (simp add: m_def)
    then have "b ! (i - 1) + 4 * b ! i + b ! (i + 1) = 6 * ac ! i"
      "b' ! (i - 1) + 4 * b' ! i + b' ! (i + 1) = 6 * ac ! i"
      using b b' unfolding spline_rel_def by blast+
    then show ?thesis by (simp add: z_def)
  qed
  have mpos: "0 < m" using k lm by simp
  from max_index[OF mpos, of "\<lambda>i. \<bar>z i\<bar>"] obtain i where
    i: "i < m" "\<forall>j<m. \<bar>z j\<bar> \<le> \<bar>z i\<bar>" by blast
  have "z i = 0"
  proof (cases "i = 0 \<or> i = m - 1")
    case True
    then show ?thesis using z0 zl by auto
  next
    case False
    then have ii: "0 < i" "i < m - 1" using i(1) by auto
    have e: "4 * z i = - (z (i - 1) + z (i + 1))" using zi[OF ii] by simp
    have "\<bar>z (i - 1)\<bar> \<le> \<bar>z i\<bar>" "\<bar>z (i + 1)\<bar> \<le> \<bar>z i\<bar>" using i(2) ii by simp_all
    then have "\<bar>z (i - 1) + z (i + 1)\<bar> \<le> 2 * \<bar>z i\<bar>" by linarith
    then have "4 * \<bar>z i\<bar> \<le> 2 * \<bar>z i\<bar>" using e by (simp add: abs_minus_commute)
    then show ?thesis by simp
  qed
  then have "\<bar>z k\<bar> \<le> 0" using i(2) k lm by auto
  then show "b ! k = b' ! k" by (simp add: z_def)
qed

lemma control_arrays_eval:
  assumes "18 \<le> length ctlpts"
    and "spline_rel (anchor_vals 2 ctlpts is_closed) bx"
    and "spline_rel (anchor_vals 3 ctlpts is_closed) by"
  shows "control_arrays ctlpts is_closed
           = Some (stripped is_closed (con1s bx), stripped is_closed (con2s bx),
                   stripped is_closed (con1s by), stripped is_closed (con2s by))"
proof -
  from control_arrays_spline[OF assms(1), of is_closed] obtain cx cy where
    c: "control_arrays ctlpts is_closed
             = Some (stripped is_closed (con1s cx), stripped is_closed (con2s cx),
                     stripped is_closed (con1s cy), stripped is_closed (con2s cy))"
    and sx: "spline_rel (anchor_vals 2 ctlpts is_closed) cx"
    and sy: "spline_rel (anchor_vals 3 ctlpts is_closed) cy"
    by blast
  have "cx = bx" "cy = by"
    using spline_unique[OF sx assms(2)] spline_unique[OF sy assms(3)] by simp_all
  with c show ?thesis by simp
qed

lemma for_loop_fold:
  assumes "\<And>n s. n \<in> set ns \<Longrightarrow> P s \<Longrightarrow> body n s = Some (f n s) \<and> P (f n s)"
    and "P s"
  shows "for_loop ns body s = Some (fold f ns s) \<and> P (fold f ns s)"
  using assms
proof (induction ns arbitrary: s)
  case Nil
  then show ?case by simp
next
  case (Cons n ns)
  have h: "body n s = Some (f n s)" "P (f n s)" using Cons.prems(1)[of n s] Cons.prems(2) by simp_all
  have "for_loop ns body (f n s) = Some (fold f ns (f n s)) \<and> P (fold f ns (f n s))"
    using Cons.IH[of "f n s"] Cons.prems(1) h(2) by simp
  then show ?case using h(1) by simp
qed

lemma length_pre_fun [simp]: "length (pre_fun sv is_closed aconx2 acony2 st) = length st"
  by (simp add: pre_fun_def)

lemma length_post_fun [simp]: "length (post_fun sv is_closed aconx1 acony1 st) = length st"
  by (simp add: post_fun_def)

lemma length_fold_step [simp]:
  "length (fold (step_fun sv is_closed num_points len aconx1 acony1 aconx2 acony2) ns st)
     = length st"
  by (induction ns arbitrary: st) simp_all

lemma update_ctlpts_eq:
  assumes np: "18 \<le> length st"
    and ar: "length st div 6 - 1 \<le> length aconx1" "length acony1 = length aconx1"
      "length aconx2 = length aconx1" "length acony2 = length aconx1"
  shows "update_ctlpts sv is_closed st aconx1 acony1 aconx2 acony2
           = Some (post_fun sv is_closed aconx1 acony1
                     (fold (step_fun sv is_closed (length st) (length st div 6)
                              aconx1 acony1 aconx2 acony2)
                        [0..<length st div 6 - 1]
                        (pre_fun sv is_closed aconx2 acony2 st)))"
proof -
  let ?np = "length st"
  let ?len = "?np div 6"
  let ?f = "step_fun sv is_closed ?np ?len aconx1 acony1 aconx2 acony2"
  let ?st0 = "pre_fun sv is_closed aconx2 acony2 st"
  have len3: "3 \<le> ?len" using np by simp
  then have pos: "0 < length aconx1" using ar(1) by linarith
  have pre: "(if is_closed then do {
          t \<leftarrow> angle_at sv st (?np - 4) (?np - 3) 2 3 8 9;
          if t then put_con st 0 1 aconx2 acony2 (length aconx2 - 1) (length acony2 - 1)
          else Some st
        } else Some st) = Some ?st0"
  proof -
    have p: "put_con st 0 1 aconx2 acony2 (length aconx2 - 1) (length acony2 - 1)
               = Some (st[0 := aconx2 ! (length aconx2 - 1), 1 := acony2 ! (length acony2 - 1)])"
      by (rule put_con_Some) (use np ar pos in \<open>simp_all del: length_greater_0_conv\<close>)
    have a: "angle_at sv st (?np - 4) (?np - 3) 2 3 8 9
               = Some (corner_ok sv st (?np - 4) (?np - 3) 2 3 8 9)"
      by (rule angle_at_Some) (use np in simp_all)
    show ?thesis unfolding a p by (simp add: pre_fun_def)
  qed
  have loop: "for_loop [0..<?len - 1]
                (interior_step sv is_closed ?np ?len aconx1 acony1 aconx2 acony2) ?st0
              = Some (fold ?f [0..<?len - 1] ?st0)
              \<and> length (fold ?f [0..<?len - 1] ?st0) = ?np"
  proof (rule for_loop_fold[where P = "\<lambda>s. length s = ?np"])
    fix n and s :: "real list"
    assume n: "n \<in> set [0..<?len - 1]" and s: "length s = ?np"
    have nl: "n < ?len - 1" using n by simp
    then have b: "n < length aconx1" "n < length acony1" "n < length aconx2" "n < length acony2"
      using ar by simp_all
    show "interior_step sv is_closed ?np ?len aconx1 acony1 aconx2 acony2 n s = Some (?f n s)
            \<and> length (?f n s) = ?np"
      using interior_step_eq[OF s np refl nl b] s by simp
  next
    show "length ?st0 = ?np" by simp
  qed
  let ?st1 = "fold ?f [0..<?len - 1] ?st0"
  have l1: "length ?st1 = ?np" by simp
  have post: "(if is_closed then do {
        t \<leftarrow> angle_at sv ?st1 (?np - 10) (?np - 9) (?np - 4) (?np - 3) 2 3;
        if t then put_con ?st1 (?np - 2) (?np - 1) aconx1 acony1 (length aconx1 - 1)
                    (length acony1 - 1)
        else Some ?st1
      } else Some ?st1) = Some (post_fun sv is_closed aconx1 acony1 ?st1)"
  proof -
    have p: "put_con ?st1 (?np - 2) (?np - 1) aconx1 acony1 (length aconx1 - 1)
                 (length acony1 - 1)
               = Some (?st1[?np - 2 := aconx1 ! (length aconx1 - 1),
                            ?np - 1 := acony1 ! (length acony1 - 1)])"
      by (rule put_con_Some) (use np ar pos l1 in \<open>simp_all del: length_greater_0_conv\<close>)
    have a: "angle_at sv ?st1 (?np - 10) (?np - 9) (?np - 4) (?np - 3) 2 3
               = Some (corner_ok sv ?st1 (?np - 10) (?np - 9) (?np - 4) (?np - 3) 2 3)"
      by (rule angle_at_Some) (use np l1 in simp_all)
    show ?thesis unfolding a p by (simp add: post_fun_def)
  qed
  have loop1: "for_loop [0..<?len - 1]
                (interior_step sv is_closed ?np ?len aconx1 acony1 aconx2 acony2) ?st0
              = Some ?st1"
    using loop by blast
  show ?thesis
    unfolding update_ctlpts_def Let_def pre
    by (simp only: Option.bind.simps loop1 post)
qed

lemma step_fun_frame:
  assumes "j \<notin> {n * 6 + 4, n * 6 + 5, n * 6 + 6, n * 6 + 7}"
  shows "step_fun sv is_closed num_points len aconx1 acony1 aconx2 acony2 n st ! j = st ! j"
  using assms by (simp add: step_fun_def Let_def)

lemma fold_step_frame:
  assumes "\<forall>n \<in> set ns. j \<notin> {n * 6 + 4, n * 6 + 5, n * 6 + 6, n * 6 + 7}"
  shows "fold (step_fun sv is_closed num_points len aconx1 acony1 aconx2 acony2) ns st ! j
           = st ! j"
  using assms
proof (induction ns arbitrary: st)
  case Nil
  then show ?case by simp
next
  case (Cons n ns)
  then show ?case by (simp add: step_fun_frame del: insert_iff)
qed

lemma pre_fun_frame: "2 \<le> j \<Longrightarrow> pre_fun sv is_closed aconx2 acony2 st ! j = st ! j"
  by (simp add: pre_fun_def)

lemma post_fun_frame:
  "j < length st - 2 \<Longrightarrow> post_fun sv is_closed aconx1 acony1 st ! j = st ! j"
  by (simp add: post_fun_def)

text \<open>The whole function on a stroke that passes the guard.\<close>

lemma set_bezier_path_eq:
  assumes "18 \<le> length ctlpts"
  shows "\<exists>aconx1 aconx2 acony1 acony2.
           control_arrays ctlpts is_closed = Some (aconx1, aconx2, acony1, acony2)
         \<and> length aconx1 = (if is_closed then length ctlpts div 6 else length ctlpts div 6 - 1)
         \<and> length acony1 = length aconx1 \<and> length aconx2 = length aconx1
         \<and> length acony2 = length aconx1
         \<and> set_bezier_path sv ctlpts is_closed
             = Some (post_fun sv is_closed aconx1 acony1
                       (fold (step_fun sv is_closed (length ctlpts) (length ctlpts div 6)
                                aconx1 acony1 aconx2 acony2)
                          [0..<length ctlpts div 6 - 1]
                          (pre_fun sv is_closed aconx2 acony2 ctlpts)), is_closed)"
proof -
  from control_arrays_spline[OF assms, of is_closed] obtain bx "by" where
    c: "control_arrays ctlpts is_closed
             = Some (stripped is_closed (con1s bx), stripped is_closed (con2s bx),
                     stripped is_closed (con1s by), stripped is_closed (con2s by))"
    and sx: "spline_rel (anchor_vals 2 ctlpts is_closed) bx"
    and sy: "spline_rel (anchor_vals 3 ctlpts is_closed) by"
    by blast
  let ?x1 = "stripped is_closed (con1s bx)" and ?x2 = "stripped is_closed (con2s bx)"
  let ?y1 = "stripped is_closed (con1s by)" and ?y2 = "stripped is_closed (con2s by)"
  have lb: "length bx = (if is_closed then length ctlpts div 6 + 3 else length ctlpts div 6)"
    "length by = length bx"
    using sx sy by (simp_all add: spline_rel_def length_anchor_vals)
  have l: "length ?x1 = (if is_closed then length ctlpts div 6 else length ctlpts div 6 - 1)"
    "length ?y1 = length ?x1" "length ?x2 = length ?x1" "length ?y2 = length ?x1"
    using lb by (simp_all add: length_stripped)
  have le: "length ctlpts div 6 - 1 \<le> length ?x1" using l(1) by simp
  have "set_bezier_path sv ctlpts is_closed
          = Some (post_fun sv is_closed ?x1 ?y1
                    (fold (step_fun sv is_closed (length ctlpts) (length ctlpts div 6)
                             ?x1 ?y1 ?x2 ?y2)
                       [0..<length ctlpts div 6 - 1]
                       (pre_fun sv is_closed ?x2 ?y2 ctlpts)), is_closed)"
    using assms unfolding set_bezier_path_def Let_def c
    by (simp add: update_ctlpts_eq[OF assms le l(2,3,4)])
  with c l show ?thesis by blast
qed

lemma axis_pass_guarded:
  assumes "3 \<le> length ac"
  shows "axis_pass_with triagonal_solve_guarded asd asb ac = axis_pass asd asb ac"
proof (cases "length ac = 3")
  case True
  then show ?thesis by (simp add: axis_pass_def axis_pass_with_def Let_def)
next
  case False
  then have "\<not> length (g_array_set_size asb (length ac - 2)) < 2" using assms by simp
  then have "triagonal_solve_guarded (g_array_set_size asb (length ac - 2))
               = triagonal_solve (g_array_set_size asb (length ac - 2))"
    by (simp add: fun_eq_iff triagonal_solve_guarded_def)
  then show ?thesis by (simp add: axis_pass_def axis_pass_with_def Let_def)
qed

lemma linear_spline_rel:
  assumes "\<forall>i<length ac. ac ! i = a0 + real i * d"
  shows "spline_rel ac ac"
proof -
  have "ac ! (i - 1) + 4 * ac ! i + ac ! (i + 1) = 6 * ac ! i"
    if "i \<in> set [1..<length ac - 1]" for i
  proof -
    have "0 < i" using that by simp
    then obtain k where k: "i = Suc k" by (cases i) auto
    have b: "k < length ac" "Suc k < length ac" "Suc (Suc k) < length ac" using that k by auto
    show ?thesis
      using assms b unfolding k by (simp add: algebra_simps)
  qed
  then show ?thesis by (simp add: spline_rel_def)
qed

lemma con1s_nth: "n < length b - 1 \<Longrightarrow> con1s b ! n = 2 * b ! n / 3 + b ! (Suc n) / 3"
  by (simp add: con1s_def)

lemma con2s_nth: "n < length b - 1 \<Longrightarrow> con2s b ! n = b ! n / 3 + 2 * b ! (Suc n) / 3"
  by (simp add: con2s_def)

section \<open>Evaluation on the examples\<close>

text \<open>A spline is determined by its equations, so the result of the program on a given
  stroke is found by checking a candidate against the equations.\<close>

lemma set_bezier_path_eval:
  assumes "18 \<le> length ctlpts"
    and "spline_rel (anchor_vals 2 ctlpts is_closed) bx"
    and "spline_rel (anchor_vals 3 ctlpts is_closed) by"
  shows "set_bezier_path sv ctlpts is_closed
           = Some (post_fun sv is_closed (stripped is_closed (con1s bx))
                     (stripped is_closed (con1s by))
                     (fold (step_fun sv is_closed (length ctlpts) (length ctlpts div 6)
                              (stripped is_closed (con1s bx)) (stripped is_closed (con1s by))
                              (stripped is_closed (con2s bx)) (stripped is_closed (con2s by)))
                        [0..<length ctlpts div 6 - 1]
                        (pre_fun sv is_closed (stripped is_closed (con2s bx))
                           (stripped is_closed (con2s by)) ctlpts)), is_closed)"
  using set_bezier_path_eq[OF assms(1), of is_closed sv]
    control_arrays_eval[OF assms] by auto

lemma upt_numeral_expand:
  "[m..<numeral k] = (if m < numeral k then m # [Suc m..<numeral k] else [])"
  by (simp add: upt_rec)

lemma sr_sub_Fin [simp]: "sr_sub (Fin a) (Fin b) = Fin (a - b)"
  by (simp add: sr_sub_def sr_add_def sr_neg_def zero_of_def)

lemma sr_neg_Fin: "sr_neg (Fin a) = (if a = 0 then NegZero else Fin (- a))"
  by (simp add: sr_neg_def zero_of_def)

lemma sr_mul_Fin:
  "sr_mul (Fin a) (Fin b) = (if a * b = 0 then zero_of ((a < 0) \<noteq> (b < 0)) else Fin (a * b))"
  by (simp add: sr_mul_def)

lemma sr_mul_NegZero: "sr_mul NegZero (Fin b) = zero_of (\<not> b < 0)"
  by (simp add: sr_mul_def)

lemma sr_add_Fin:
  "sr_add (Fin a) (Fin b) = Fin (a + b)"
  by (simp add: sr_add_def zero_of_def)

lemma sr_add_NegZero:
  "sr_add NegZero (Fin b) = Fin b" "sr_add (Fin a) NegZero = Fin a"
  "sr_add NegZero NegZero = NegZero"
  by (simp_all add: sr_add_def zero_of_def)

lemma sr_sub_NegZero:
  "sr_sub NegZero (Fin b) = (if b = 0 then NegZero else Fin (- b))" "sr_sub (Fin a) NegZero = Fin a"
  by (simp_all add: sr_sub_def sr_add_def sr_neg_def zero_of_def)

lemmas sreal_eval = sr_neg_Fin sr_mul_Fin sr_mul_NegZero sr_add_Fin sr_add_NegZero
  sr_sub_NegZero zero_of_def

lemma atan2_Fin:
  "atan2 (Fin y) (Fin x) =
     (if 0 < x then arctan (y / x)
      else if x < 0 then (if y < 0 then arctan (y / x) - pi else arctan (y / x) + pi)
      else if 0 < y then pi / 2 else if y < 0 then - (pi / 2) else 0)"
  by (simp add: atan2_def)

lemma corner_angle_90:
  "corner_angle (Fin 0) (Fin 0) (Fin 10) (Fin 0) (Fin 10) (Fin 10) = 90"
  "corner_angle (Fin 10) (Fin 0) (Fin 10) (Fin 10) (Fin 0) (Fin 10) = 90"
  by (simp_all add: corner_angle_def sreal_eval atan2_Fin rad_to_deg_def)

lemmas eval_defs = post_fun_def pre_fun_def step_fun_def gate1_def gate2_def
  corner_ok_def angle_between_def con1s_def con2s_def stripped_def upt_numeral_expand
  corner_angle_90

lemma zigzag_anchors:
  "anchor_vals 2 zigzag False = [0, 10, 10, 0]" "anchor_vals 3 zigzag False = [0, 0, 10, 10]"
  by (simp_all add: anchor_vals_def zigzag_def upt_numeral_expand)

lemma zigzag_spline:
  "spline_rel (anchor_vals 2 zigzag False) [0, 12, 12, 0]"
  "spline_rel (anchor_vals 3 zigzag False) [0, - (10 / 3), 40 / 3, 10]"
  unfolding zigzag_anchors by (simp_all add: spline_rel_def upt_numeral_expand)

lemma zigzag_off:
  "set_bezier_path sv_off zigzag False =
     Some ([- 1, - 1, 0, 0, 4, - (10 / 9),  8, - (20 / 9), 10, 0, 12, 20 / 9,
            12, 70 / 9, 10, 10, 8, 110 / 9,  4, 100 / 9, 0, 10, 1, 11], False)"
  by (subst set_bezier_path_eval[OF _ zigzag_spline])
    (simp_all add: zigzag_def sv_off_def eval_defs)

lemma zigzag_on:
  "set_bezier_path sv_on zigzag False =
     Some ([- 1, - 1, 0, 0, 1, 1,  8, - (20 / 9), 10, 0, 12, 20 / 9,
            12, 70 / 9, 10, 10, 8, 110 / 9,  - 1, 9, 0, 10, 1, 11], False)"
  by (subst set_bezier_path_eval[OF _ zigzag_spline])
    (simp_all add: zigzag_def sv_on_def eval_defs)

lemma zigzag_arrays:
  "control_arrays zigzag False =
     Some ([4, 12, 8], [8, 12, 4], [- (10 / 9), 20 / 9, 110 / 9], [- (20 / 9), 70 / 9, 100 / 9])"
  by (subst control_arrays_eval[OF _ zigzag_spline]) (simp_all add: zigzag_def eval_defs)

lemmas axis_defs = axis_pass_def axis_pass_with_def g_array_set_size_def rhs_step_def
  con_step_def triagonal_solve_def sweep_step_def back_step_def upt_numeral_expand Let_def

lemma zigzag_axis_x:
  "axis_pass [] [] [0, 10, 10, 0] = Some ([15, 12], [0, 12, 12, 0], [4, 12, 8], [8, 12, 4])"
  by (simp add: axis_defs)

lemma zigzag_axis_y:
  "axis_pass [15, 12] [0, 12, 12, 0] [0, 0, 10, 10] =
     Some ([0, 40 / 3], [0, - (10 / 3), 40 / 3, 10], [- (10 / 9), 20 / 9, 110 / 9],
           [- (20 / 9), 70 / 9, 100 / 9])"
  by (simp add: axis_defs)

lemma triangle_anchors:
  "anchor_vals 2 triangle True = [0, 0, 627, 0, 0, 627]"
  "anchor_vals 3 triangle True = [627, 0, 0, 627, 0, 0]"
  "anchor_vals 2 (rotate 6 triangle) True = [0, 627, 0, 0, 627, 0]"
  "anchor_vals 3 (rotate 6 triangle) True = [0, 0, 627, 0, 0, 627]"
  by (simp_all add: anchor_vals_def triangle_def upt_numeral_expand rotate_drop_take)

lemma triangle_spline:
  "spline_rel (anchor_vals 2 triangle True) [0, - 267, 1068, - 243, - 96, 627]"
  "spline_rel (anchor_vals 3 triangle True) [627, - 96, - 243, 1068, - 267, 0]"
  unfolding triangle_anchors by (simp_all add: spline_rel_def upt_numeral_expand)

lemma rotated_triangle_spline:
  "spline_rel (anchor_vals 2 (rotate 6 triangle) True) [0, 990, - 198, - 198, 990, 0]"
  "spline_rel (anchor_vals 3 (rotate 6 triangle) True) [0, - 267, 1068, - 243, - 96, 627]"
  unfolding triangle_anchors by (simp_all add: spline_rel_def upt_numeral_expand)

lemma rotated_triangle: "rotate 6 triangle
    = [627, 0, 627, 0, 627, 0,  0, 627, 0, 627, 0, 627,  0, 0, 0, 0, 0, 0]"
  by (simp add: triangle_def rotate_drop_take)

lemma triangle_off:
  "set_bezier_path sv_off triangle True =
     Some ([- 145, 178, 0, 0, 178, - 145,  623, - 194, 627, 0, 631, 194,
            194, 631, 0, 627, - 194, 623], True)"
  by (subst set_bezier_path_eval[OF _ triangle_spline])
    (simp_all add: triangle_def sv_off_def eval_defs)

lemma rotated_triangle_off:
  "set_bezier_path sv_off (rotate 6 triangle) True =
     Some ([594, - 145, 627, 0, 594, 178,  198, 623, 0, 627, - 198, 631,
            - 198, 194, 0, 0, 198, - 194], True)"
  by (subst set_bezier_path_eval[OF _ rotated_triangle_spline])
    (simp_all add: rotated_triangle sv_off_def eval_defs)

section \<open>Arithmetic on doubles\<close>

text \<open>
  The accuracy of \<^verbatim>\<open>triagonal_solve\<close> in double arithmetic is obtained in steps. One
  rounding moves a real number \<open>r\<close> by at most \<open>2\<^sup>-\<^sup>5\<^sup>3 \<cdot> \<bar>r\<bar> + 2\<^sup>-\<^sup>1\<^sup>0\<^sup>7\<^sup>5\<close>, so every operation on
  finite doubles whose exact result is at most \<open>1.9 \<cdot> 2\<^sup>1\<^sup>0\<^sup>2\<^sup>3\<close> returns a finite double that close to
  it. Along the sweep the pivots \<^verbatim>\<open>asc[i]\<close> stay between 0.24 and 0.34 and the entries of
  \<^verbatim>\<open>asd\<close> below half the bound \<open>M\<close> on the entries of \<open>rhs\<close>; along the back substitution the
  entries of \<^verbatim>\<open>asb\<close> stay below \<open>M\<close>. Nothing overflows, and the residual of a row of the
  system is a sum of a few of these rounding errors, each multiplied by at most 3.77.
\<close>

subsection \<open>Values of the operations with signed zeros\<close>

lemma val_sr_neg [simp]: "val (sr_neg x) = - val x"
  by (simp add: sr_neg_def zero_of_def)

lemma val_sr_add [simp]: "val (sr_add x y) = val x + val y"
  by (simp add: sr_add_def zero_of_def)

lemma val_sr_sub [simp]: "val (sr_sub x y) = val x - val y"
  by (simp add: sr_sub_def)

lemma val_sr_mul [simp]: "val (sr_mul x y) = val x * val y"
  by (simp add: sr_mul_def zero_of_def)

subsection \<open>The error of one rounding\<close>


lemma nearest_even_error: "\<bar>of_int (nearest_even q) - q\<bar> \<le> 1 / 2"
  unfolding nearest_even_def Let_def by (auto simp: abs_if) linarith+

lemma ulp_of_pos [simp]: "0 < ulp_of r"
  by (simp add: ulp_of_def)

lemma rne_error: "\<bar>rne r - r\<bar> \<le> ulp_of r / 2"
proof -
  have nz: "ulp_of r \<noteq> 0" by (metis ulp_of_pos less_irrefl)
  have "rne r - r = (of_int (nearest_even (r / ulp_of r)) - r / ulp_of r) * ulp_of r"
    using nz by (simp add: rne_def field_simps)
  then have "\<bar>rne r - r\<bar> = \<bar>of_int (nearest_even (r / ulp_of r)) - r / ulp_of r\<bar> * ulp_of r"
    using less_imp_le[OF ulp_of_pos[of r]] by (simp add: abs_mult abs_of_nonneg del: ulp_of_pos)
  also have "\<dots> \<le> 1 / 2 * ulp_of r"
    by (rule mult_right_mono[OF nearest_even_error]) (simp add: less_imp_le)
  finally show ?thesis by simp
qed

lemma two_powr_powi: "2 powr (real_of_int k) = (2::real) powi k"
  by (simp add: powr_real_of_int power_int_def power_one_over inverse_eq_divide)

lemma two_powi_floor_log: "r \<noteq> 0 \<Longrightarrow> 2 powi \<lfloor>log 2 \<bar>r\<bar>\<rfloor> \<le> \<bar>r\<bar>"
  using floor_log_eq_powr_iff[of "\<bar>r\<bar>" 2 "\<lfloor>log 2 \<bar>r\<bar>\<rfloor>"] by (simp add: two_powr_powi)

lemma half_powi: "(2::real) powi k / 2 = 2 powi (k - 1)"
  by (simp add: power_int_diff)

lemma ulp_half_bound:
  assumes "r \<noteq> 0"
  shows "ulp_of r / 2 \<le> unit_roundoff * \<bar>r\<bar> + underflow_unit"
proof -
  define e where "e = \<lfloor>log 2 \<bar>r\<bar>\<rfloor>"
  have le: "2 powi e \<le> \<bar>r\<bar>" unfolding e_def by (rule two_powi_floor_log[OF assms])
  have ulp: "ulp_of r / 2 = 2 powi (max e (- 1022) - 53)"
    unfolding ulp_of_def e_def[symmetric] half_powi by simp
  show ?thesis
  proof (cases "- 1022 \<le> e")
    case True
    then have "ulp_of r / 2 = 2 powi (e + (- 53))" unfolding ulp by (simp add: max_def)
    also have "\<dots> = 2 powi e * unit_roundoff"
      unfolding unit_roundoff_def by (rule power_int_add) simp
    also have "\<dots> \<le> \<bar>r\<bar> * unit_roundoff"
      by (rule mult_right_mono[OF le]) (simp add: unit_roundoff_def)
    finally have "ulp_of r / 2 \<le> unit_roundoff * \<bar>r\<bar>" by (simp add: mult.commute)
    moreover have "0 \<le> underflow_unit" by (simp add: underflow_unit_def)
    ultimately show ?thesis by linarith
  next
    case False
    then have "ulp_of r / 2 = underflow_unit"
      unfolding ulp underflow_unit_def by (simp add: max_def)
    moreover have "0 \<le> unit_roundoff * \<bar>r\<bar>" by (simp add: unit_roundoff_def)
    ultimately show ?thesis by linarith
  qed
qed

lemma rne_zero [simp]: "rne 0 = 0"
  by (simp add: rne_def nearest_even_def)

lemma rne_rel_error: "\<bar>rne r - r\<bar> \<le> unit_roundoff * \<bar>r\<bar> + underflow_unit"
proof (cases "r = 0")
  case True
  then show ?thesis by (simp add: underflow_unit_def)
next
  case False
  from rne_error[of r] ulp_half_bound[OF False] show ?thesis by linarith
qed


lemma unit_roundoff_bounds: "0 < unit_roundoff" "unit_roundoff \<le> 1 / 1000"
  by (simp_all add: unit_roundoff_def power_int_minus)

lemma underflow_unit_bounds: "0 < underflow_unit" "underflow_unit \<le> 1"
  by (simp_all add: underflow_unit_def power_int_minus)

lemma round_double_approx:
  assumes "\<bar>val x\<bar> \<le> B" and "B \<le> 19 / 10 * 2 ^ 1023"
  shows "approx (round_double x) (val x) (unit_roundoff * B + underflow_unit)"
proof -
  have ub: "unit_roundoff * \<bar>val x\<bar> \<le> unit_roundoff * B"
    by (rule mult_left_mono[OF assms(1)]) (use unit_roundoff_bounds in simp)
  have nn: "0 \<le> unit_roundoff * \<bar>val x\<bar>" using unit_roundoff_bounds by simp
  show ?thesis
  proof (cases "val x = 0")
    case True
    then show ?thesis
      using ub nn underflow_unit_bounds by (simp add: approx_def round_double_def)
  next
    case False
    define q where "q = rne (val x)"
    have e: "\<bar>q - val x\<bar> \<le> unit_roundoff * \<bar>val x\<bar> + underflow_unit"
      unfolding q_def by (rule rne_rel_error)
    have "unit_roundoff * B \<le> 1 / 1000 * B"
      by (rule mult_right_mono) (use unit_roundoff_bounds assms(1) in simp_all)
    moreover have "(2::real) ^ 1024 = 2 * 2 ^ 1023" by simp
    moreover have "(11::real) \<le> 2 ^ 1023" by simp
    ultimately have lt: "\<bar>q\<bar> < 2 ^ 1024"
      using e ub assms underflow_unit_bounds by linarith
    have rd: "round_double x = (if q = 0 then Num (zero_of (val x < 0)) else Num (Fin q))"
      using False lt by (simp add: round_double_def Let_def q_def[symmetric])
    have "is_fin (round_double x)" and "dval (round_double x) = q"
      unfolding rd by (simp_all add: zero_of_def)
    then show ?thesis
      unfolding approx_def using e ub by simp
  qed
qed

lemma is_fin_Num: "is_fin a \<Longrightarrow> \<exists>x. a = Num x"
  by (cases a) simp_all

lemma d_sub_approx:
  assumes "is_fin a" "is_fin b" "\<bar>dval a - dval b\<bar> \<le> B" "B \<le> 19 / 10 * 2 ^ 1023"
  shows "approx (d_sub a b) (dval a - dval b) (unit_roundoff * B + underflow_unit)"
proof -
  from assms(1,2) obtain x y where "a = Num x" "b = Num y" using is_fin_Num by blast
  then show ?thesis
    using round_double_approx[of "sr_add x (sr_neg y)" B] assms(3,4)
    by (simp add: d_sub_def d_add_def)
qed

lemma d_mul_approx:
  assumes "is_fin a" "is_fin b" "\<bar>dval a * dval b\<bar> \<le> B" "B \<le> 19 / 10 * 2 ^ 1023"
  shows "approx (d_mul a b) (dval a * dval b) (unit_roundoff * B + underflow_unit)"
proof -
  from assms(1,2) obtain x y where "a = Num x" "b = Num y" using is_fin_Num by blast
  then show ?thesis
    using round_double_approx[of "sr_mul x y" B] assms(3,4) by (simp add: d_mul_def)
qed

lemma d_div_approx:
  assumes "is_fin a" "is_fin b" "dval b \<noteq> 0" "\<bar>dval a / dval b\<bar> \<le> B" "B \<le> 19 / 10 * 2 ^ 1023"
  shows "approx (d_div a b) (dval a / dval b) (unit_roundoff * B + underflow_unit)"
proof -
  from assms(1,2) obtain x y where ab: "a = Num x" "b = Num y" using is_fin_Num by blast
  have "0 \<le> B" using assms(4) abs_ge_zero[of "dval a / dval b"] by linarith
  then have nn: "0 \<le> unit_roundoff * B + underflow_unit"
    using unit_roundoff_bounds underflow_unit_bounds
    by (intro add_nonneg_nonneg mult_nonneg_nonneg) simp_all
  show ?thesis
  proof (cases "val x = 0")
    case True
    then show ?thesis using ab assms(3) nn by (simp add: d_div_def approx_def zero_of_def)
  next
    case False
    then show ?thesis
      using round_double_approx[of "Fin (val x / val y)" B] ab assms(3,4,5)
      by (simp add: d_div_def)
  qed
qed


subsection \<open>The solver in double arithmetic, as relations\<close>

lemma sweep_step_d_Some:
  assumes "0 < i" "i < length asc" "i < length asd"
  shows "sweep_step_d i (asc, asd) =
     Some (asc[i := d_div (asc ! i) (d_sub (Num (Fin 4)) (asc ! (i - 1)))],
           asd[i := d_div (d_sub (asd ! i) (asd ! (i - 1))) (d_sub (Num (Fin 4)) (asc ! (i - 1)))])"
  using assms by (simp add: sweep_step_d_def Let_def)

lemma sweep_loop_d:
  assumes "length asc = n" "length asd = n" "k \<le> n" "1 \<le> k"
  shows "\<exists>asc' asd'. for_loop [1..<k] sweep_step_d (asc, asd) = Some (asc', asd')
      \<and> length asc' = n \<and> length asd' = n
      \<and> (\<forall>j. j = 0 \<or> k \<le> j \<longrightarrow> asc' ! j = asc ! j \<and> asd' ! j = asd ! j)
      \<and> (\<forall>j. 0 < j \<and> j < k \<longrightarrow> asc' ! j = d_div (asc ! j) (d_sub (Num (Fin 4)) (asc' ! (j - 1)))
                \<and> asd' ! j = d_div (d_sub (asd ! j) (asd' ! (j - 1))) (d_sub (Num (Fin 4)) (asc' ! (j - 1))))"
  using assms(3,4)
proof (induction k)
  case 0
  then show ?case by simp
next
  case (Suc k)
  show ?case
  proof (cases "k = 0")
    case True
    then show ?thesis using assms(1,2) by simp
  next
    case False
    then have k: "1 \<le> k" "k \<le> n" "k < n" using Suc.prems by auto
    from Suc.IH[OF k(2) k(1)] obtain asc' asd' where
      run: "for_loop [1..<k] sweep_step_d (asc, asd) = Some (asc', asd')"
      and len: "length asc' = n" "length asd' = n"
      and keep: "\<And>j. j = 0 \<or> k \<le> j \<Longrightarrow> asc' ! j = asc ! j \<and> asd' ! j = asd ! j"
      and rec: "\<And>j. 0 < j \<and> j < k \<Longrightarrow> asc' ! j = d_div (asc ! j) (d_sub (Num (Fin 4)) (asc' ! (j - 1)))
                \<and> asd' ! j = d_div (d_sub (asd ! j) (asd' ! (j - 1))) (d_sub (Num (Fin 4)) (asc' ! (j - 1)))"
      by blast
    have upt: "[1..<Suc k] = [1..<k] @ [k]" using k(1) by simp
    let ?asc = "asc'[k := d_div (asc' ! k) (d_sub (Num (Fin 4)) (asc' ! (k - 1)))]"
    let ?asd = "asd'[k := d_div (d_sub (asd' ! k) (asd' ! (k - 1))) (d_sub (Num (Fin 4)) (asc' ! (k - 1)))]"
    have step: "for_loop [1..<Suc k] sweep_step_d (asc, asd) = Some (?asc, ?asd)"
      unfolding upt for_loop_append run using k len by (simp add: sweep_step_d_Some)
    have a: "\<And>j. j = 0 \<or> Suc k \<le> j \<Longrightarrow> ?asc ! j = asc ! j \<and> ?asd ! j = asd ! j"
      using keep k by auto
    have b: "\<And>j. 0 < j \<and> j < Suc k \<Longrightarrow> ?asc ! j = d_div (asc ! j) (d_sub (Num (Fin 4)) (?asc ! (j - 1)))
                \<and> ?asd ! j = d_div (d_sub (asd ! j) (?asd ! (j - 1))) (d_sub (Num (Fin 4)) (?asc ! (j - 1)))"
    proof -
      fix j assume j: "0 < j \<and> j < Suc k"
      show "?asc ! j = d_div (asc ! j) (d_sub (Num (Fin 4)) (?asc ! (j - 1)))
                \<and> ?asd ! j = d_div (d_sub (asd ! j) (?asd ! (j - 1))) (d_sub (Num (Fin 4)) (?asc ! (j - 1)))"
      proof (cases "j = k")
        case True
        then show ?thesis using keep[of k] k len by simp
      next
        case False
        then have "j < k" using j by simp
        then show ?thesis using rec[of j] j k len by simp
      qed
    qed
    have len': "length ?asc = n" "length ?asd = n" using len by simp_all
    from step len' a b show ?thesis by blast
  qed
qed

lemma back_step_d_Some:
  assumes "i < length asd" "i < length asc" "Suc i < length asb"
  shows "back_step_d asc asd i asb = Some (asb[i := d_sub (asd ! i) (d_mul (asc ! i) (asb ! (Suc i)))])"
  using assms by (simp add: back_step_d_def)

lemma back_loop_d:
  assumes "length asc = n" "length asd = n" "length asb = n" "m < n"
  shows "\<exists>asb'. for_loop (rev [m..<n - 1]) (back_step_d asc asd) asb = Some asb'
      \<and> length asb' = n
      \<and> (\<forall>j. j < m \<or> n - 1 \<le> j \<longrightarrow> asb' ! j = asb ! j)
      \<and> (\<forall>j. m \<le> j \<and> j < n - 1 \<longrightarrow> asb' ! j = d_sub (asd ! j) (d_mul (asc ! j) (asb' ! (Suc j))))"
  using assms(4)
proof (induction "n - 1 - m" arbitrary: m)
  case 0
  then have le: "n - 1 \<le> m" by linarith
  then have "for_loop (rev [m..<n - 1]) (back_step_d asc asd) asb = Some asb" by simp
  moreover have "\<forall>j. m \<le> j \<and> j < n - 1 \<longrightarrow> asb ! j = d_sub (asd ! j) (d_mul (asc ! j) (asb ! (Suc j)))"
    using le by auto
  ultimately show ?case using assms(3) by blast
next
  case (Suc d)
  then have m: "m < n - 1" "Suc m < n" "d = n - 1 - Suc m" by auto
  from Suc.hyps(1)[OF m(3) m(2)] obtain asb' where
    run: "for_loop (rev [Suc m..<n - 1]) (back_step_d asc asd) asb = Some asb'"
    and len: "length asb' = n"
    and keep: "\<And>j. j < Suc m \<or> n - 1 \<le> j \<Longrightarrow> asb' ! j = asb ! j"
    and rec: "\<And>j. Suc m \<le> j \<and> j < n - 1 \<Longrightarrow> asb' ! j = d_sub (asd ! j) (d_mul (asc ! j) (asb' ! (Suc j)))"
    by blast
  have upt: "rev [m..<n - 1] = rev [Suc m..<n - 1] @ [m]"
    using m(1) by (simp add: upt_conv_Cons)
  let ?asb = "asb'[m := d_sub (asd ! m) (d_mul (asc ! m) (asb' ! (Suc m)))]"
  have step: "for_loop (rev [m..<n - 1]) (back_step_d asc asd) asb = Some ?asb"
    unfolding upt for_loop_append run using m len assms(1,2) by (simp add: back_step_d_Some)
  have a: "\<And>j. j < m \<or> n - 1 \<le> j \<Longrightarrow> ?asb ! j = asb ! j"
    using keep m by auto
  have b: "\<And>j. m \<le> j \<and> j < n - 1 \<Longrightarrow> ?asb ! j = d_sub (asd ! j) (d_mul (asc ! j) (?asb ! (Suc j)))"
  proof -
    fix j assume j: "m \<le> j \<and> j < n - 1"
    show "?asb ! j = d_sub (asd ! j) (d_mul (asc ! j) (?asb ! (Suc j)))"
    proof (cases "j = m")
      case True
      then show ?thesis using m len by simp
    next
      case False
      then have "Suc m \<le> j" using j by simp
      then show ?thesis using rec[of j] j m len by simp
    qed
  qed
  have len': "length ?asb = n" using len by simp
  from step len' a b show ?case by blast
qed

lemma triagonal_solve_d_relations:
  assumes "length asb = n" "length rhs = n" "1 \<le> n"
  shows "\<exists>x c d. triagonal_solve_d asb rhs = Some (x, d)
      \<and> length x = n \<and> length c = n \<and> length d = n
      \<and> c ! 0 = d_mul (Num (Fin 1)) (Num (Fin 0.25))
      \<and> d ! 0 = d_mul (rhs ! 0) (Num (Fin 0.25))
      \<and> (\<forall>j. 0 < j \<and> j < n \<longrightarrow> c ! j = d_div (Num (Fin 1)) (d_sub (Num (Fin 4)) (c ! (j - 1)))
                \<and> d ! j = d_div (d_sub (rhs ! j) (d ! (j - 1))) (d_sub (Num (Fin 4)) (c ! (j - 1))))
      \<and> x ! (n - 1) = d ! (n - 1)
      \<and> (\<forall>j. j < n - 1 \<longrightarrow> x ! j = d_sub (d ! j) (d_mul (c ! j) (x ! (Suc j))))"
proof -
  let ?c0 = "(replicate n (Num (Fin 1)))[0 := d_mul (Num (Fin 1)) (Num (Fin 0.25))]"
  let ?d0 = "rhs[0 := d_mul (rhs ! 0) (Num (Fin 0.25))]"
  have l0: "length ?c0 = n" "length ?d0 = n" using assms by simp_all
  from sweep_loop_d[OF l0 le_refl assms(3)] obtain c d where
    run: "for_loop [1..<n] sweep_step_d (?c0, ?d0) = Some (c, d)"
    and len: "length c = n" "length d = n"
    and keep: "\<And>j. j = 0 \<or> n \<le> j \<Longrightarrow> c ! j = ?c0 ! j \<and> d ! j = ?d0 ! j"
    and rec: "\<And>j. 0 < j \<and> j < n \<Longrightarrow> c ! j = d_div (?c0 ! j) (d_sub (Num (Fin 4)) (c ! (j - 1)))
                \<and> d ! j = d_div (d_sub (?d0 ! j) (d ! (j - 1))) (d_sub (Num (Fin 4)) (c ! (j - 1)))"
    by blast
  let ?b0 = "asb[n - 1 := d ! (n - 1)]"
  have lb: "length ?b0 = n" using assms by simp
  have "0 < n" using assms(3) by simp
  from back_loop_d[OF len lb this] obtain x where
    runb: "for_loop (rev [0..<n - 1]) (back_step_d c d) ?b0 = Some x"
    and lenx: "length x = n"
    and keepx: "\<And>j. j < 0 \<or> n - 1 \<le> j \<Longrightarrow> x ! j = ?b0 ! j"
    and recx: "\<And>j. 0 \<le> j \<and> j < n - 1 \<Longrightarrow> x ! j = d_sub (d ! j) (d_mul (c ! j) (x ! (Suc j)))"
    by blast
  have solve: "triagonal_solve_d asb rhs = Some (x, d)"
    using assms run runb len by (simp add: triagonal_solve_d_def)
  have c0: "c ! 0 = d_mul (Num (Fin 1)) (Num (Fin 0.25))" using keep[of 0] assms by simp
  have d0: "d ! 0 = d_mul (rhs ! 0) (Num (Fin 0.25))" using keep[of 0] assms by simp
  have rel: "\<And>j. 0 < j \<and> j < n \<Longrightarrow> c ! j = d_div (Num (Fin 1)) (d_sub (Num (Fin 4)) (c ! (j - 1)))
                \<and> d ! j = d_div (d_sub (rhs ! j) (d ! (j - 1))) (d_sub (Num (Fin 4)) (c ! (j - 1)))"
    using rec assms by simp
  have xl: "x ! (n - 1) = d ! (n - 1)" using keepx[of "n - 1"] assms by simp
  show ?thesis
    using solve lenx len c0 d0 rel xl recx by blast
qed


subsection \<open>One step of the sweep and of the back substitution\<close>

lemma eta_le_u: "underflow_unit \<le> unit_roundoff"
  by (simp add: underflow_unit_def unit_roundoff_def power_int_minus)

lemma range_facts: "(4::real) \<le> 19 / 10 * 2 ^ 1023" "(0::real) \<le> 2 ^ 1023"
  by simp_all

lemma pivot_step:
  assumes "is_fin cp" "24 / 100 \<le> dval cp" "dval cp \<le> 34 / 100"
  defines "dv \<equiv> d_sub (Num (Fin 4)) cp"
  defines "cn \<equiv> d_div (Num (Fin 1)) dv"
  shows "is_fin dv" "\<bar>dval dv - (4 - dval cp)\<bar> \<le> 5 * unit_roundoff"
    "365 / 100 \<le> dval dv" "dval dv \<le> 377 / 100"
    "is_fin cn" "\<bar>dval cn - 1 / dval dv\<bar> \<le> 5 * unit_roundoff"
    "24 / 100 \<le> dval cn" "dval cn \<le> 34 / 100"
proof -
  note u = unit_roundoff_bounds eta_le_u
  have "approx dv (dval (Num (Fin 4)) - dval cp) (unit_roundoff * 4 + underflow_unit)"
    unfolding dv_def by (rule d_sub_approx) (use assms(1-3) range_facts in simp_all)
  then show i1: "is_fin dv" and i2: "\<bar>dval dv - (4 - dval cp)\<bar> \<le> 5 * unit_roundoff"
    using u by (simp_all add: approx_def)
  show i3: "365 / 100 \<le> dval dv" and i4: "dval dv \<le> 377 / 100"
    using i2 assms(2,3) u by linarith+
  have pos: "0 < dval dv" using i3 by linarith
  have q: "\<bar>1 / dval dv\<bar> \<le> 1"
    using i3 by (simp add: abs_if divide_le_eq)
  have "approx cn (dval (Num (Fin 1)) / dval dv) (unit_roundoff * 1 + underflow_unit)"
    unfolding cn_def by (rule d_div_approx) (use i1 pos q range_facts in simp_all)
  then show "is_fin cn" and c2: "\<bar>dval cn - 1 / dval dv\<bar> \<le> 5 * unit_roundoff"
    using u by (simp_all add: approx_def)
  have lo: "26 / 100 \<le> 1 / dval dv"
    using i4 pos by (simp add: le_divide_eq)
  have hi: "1 / dval dv \<le> 28 / 100"
    using i3 pos by (simp add: divide_le_eq)
  show "24 / 100 \<le> dval cn" "dval cn \<le> 34 / 100"
    using c2 lo hi u by linarith+
qed


lemma budget_facts:
  assumes "0 < Mp"
  shows "0 \<le> unit_roundoff * Mp" "unit_roundoff * Mp \<le> Mp / 1000"
proof -
  show "0 \<le> unit_roundoff * Mp" using assms unit_roundoff_bounds by simp
  have "unit_roundoff * Mp \<le> 1 / 1000 * Mp"
    by (rule mult_right_mono) (use assms unit_roundoff_bounds in simp_all)
  then show "unit_roundoff * Mp \<le> Mp / 1000" by simp
qed

lemma rhs_step_bounds:
  assumes Mp: "0 < Mp" "Mp \<le> 5 / 4 * 2 ^ 1023" "underflow_unit \<le> Mp / 1000"
    and dv: "is_fin dv" "365 / 100 \<le> dval dv" "dval dv \<le> 377 / 100"
    and r: "is_fin r" "\<bar>dval r\<bar> \<le> Mp"
    and dp: "is_fin dp" "\<bar>dval dp\<bar> \<le> Mp / 2"
  defines "t \<equiv> d_sub r dp"
  defines "dn \<equiv> d_div t dv"
  defines "E \<equiv> 2 * (unit_roundoff * Mp) + underflow_unit"
  shows "is_fin t" "\<bar>dval t - (dval r - dval dp)\<bar> \<le> E"
    "is_fin dn" "\<bar>dval dn - dval t / dval dv\<bar> \<le> E" "\<bar>dval dn\<bar> \<le> Mp / 2"
proof -
  note W = budget_facts[OF Mp(1)]
  note eta = underflow_unit_bounds
  have big: "3 / 2 * Mp \<le> 19 / 10 * 2 ^ 1023" "45 / 100 * Mp \<le> 19 / 10 * 2 ^ 1023"
    using Mp(1,2) range_facts(2) by linarith+
  have "\<bar>dval r - dval dp\<bar> \<le> 3 / 2 * Mp" using r(2) dp(2) by linarith
  from d_sub_approx[OF r(1) dp(1) this big(1)]
  have at: "approx t (dval r - dval dp) (unit_roundoff * (3 / 2 * Mp) + underflow_unit)"
    unfolding t_def .
  show t1: "is_fin t" using at by (simp add: approx_def)
  have t2': "\<bar>dval t - (dval r - dval dp)\<bar> \<le> 3 / 2 * (unit_roundoff * Mp) + underflow_unit"
    using at by (simp add: approx_def algebra_simps)
  then show t2: "\<bar>dval t - (dval r - dval dp)\<bar> \<le> E"
    unfolding E_def using W by linarith
  have tb: "\<bar>dval t\<bar> \<le> 16 / 10 * Mp"
    using t2' r(2) dp(2) W Mp(3) by linarith
  have pos: "0 < dval dv" using dv(2) by linarith
  have "45 / 100 * Mp * (365 / 100) \<le> 45 / 100 * Mp * dval dv"
    by (rule mult_left_mono[OF dv(2)]) (use Mp(1) in simp)
  then have "\<bar>dval t\<bar> \<le> 45 / 100 * Mp * dval dv" using tb Mp(1) by linarith
  then have h: "\<bar>dval t\<bar> / dval dv \<le> 45 / 100 * Mp"
    using pos by (simp add: pos_divide_le_eq)
  have q: "\<bar>dval t / dval dv\<bar> \<le> 45 / 100 * Mp"
    unfolding abs_divide abs_of_pos[OF pos] by (rule h)
  have nz: "dval dv \<noteq> 0" using pos by simp
  from d_div_approx[OF t1 dv(1) nz q big(2)]
  have ad: "approx dn (dval t / dval dv) (unit_roundoff * (45 / 100 * Mp) + underflow_unit)"
    unfolding dn_def .
  show "is_fin dn" using ad by (simp add: approx_def)
  have d2': "\<bar>dval dn - dval t / dval dv\<bar> \<le> 45 / 100 * (unit_roundoff * Mp) + underflow_unit"
    using ad by (simp add: approx_def algebra_simps)
  then show "\<bar>dval dn - dval t / dval dv\<bar> \<le> E"
    unfolding E_def using W by linarith
  show "\<bar>dval dn\<bar> \<le> Mp / 2"
    using d2' q W Mp(3) by linarith
qed

lemma back_step_bounds:
  assumes Mp: "0 < Mp" "Mp \<le> 5 / 4 * 2 ^ 1023" "underflow_unit \<le> Mp / 1000"
    and c: "is_fin c" "24 / 100 \<le> dval c" "dval c \<le> 34 / 100"
    and d: "is_fin d" "\<bar>dval d\<bar> \<le> Mp / 2"
    and xn: "is_fin xn" "\<bar>dval xn\<bar> \<le> Mp"
  defines "p \<equiv> d_mul c xn"
  defines "x \<equiv> d_sub d p"
  defines "E \<equiv> 2 * (unit_roundoff * Mp) + underflow_unit"
  shows "is_fin p" "\<bar>dval p - dval c * dval xn\<bar> \<le> E"
    "is_fin x" "\<bar>dval x - (dval d - dval p)\<bar> \<le> E" "\<bar>dval x\<bar> \<le> Mp"
proof -
  note W = budget_facts[OF Mp(1)]
  have big: "34 / 100 * Mp \<le> 19 / 10 * 2 ^ 1023" "85 / 100 * Mp \<le> 19 / 10 * 2 ^ 1023"
    using Mp(1,2) range_facts(2) by linarith+
  have "\<bar>dval c\<bar> * \<bar>dval xn\<bar> \<le> 34 / 100 * Mp"
    by (rule mult_mono) (use c(2,3) xn(2) in simp_all)
  then have q: "\<bar>dval c * dval xn\<bar> \<le> 34 / 100 * Mp" by (simp add: abs_mult)
  from d_mul_approx[OF c(1) xn(1) q big(1)]
  have ap: "approx p (dval c * dval xn) (unit_roundoff * (34 / 100 * Mp) + underflow_unit)"
    unfolding p_def .
  show p1: "is_fin p" using ap by (simp add: approx_def)
  have p2': "\<bar>dval p - dval c * dval xn\<bar> \<le> 34 / 100 * (unit_roundoff * Mp) + underflow_unit"
    using ap by (simp add: approx_def algebra_simps)
  then show "\<bar>dval p - dval c * dval xn\<bar> \<le> E"
    unfolding E_def using W by linarith
  have pb: "\<bar>dval d - dval p\<bar> \<le> 85 / 100 * Mp"
    using p2' q d(2) W Mp(3) by linarith
  from d_sub_approx[OF d(1) p1 pb big(2)]
  have ax: "approx x (dval d - dval p) (unit_roundoff * (85 / 100 * Mp) + underflow_unit)"
    unfolding x_def .
  show "is_fin x" using ax by (simp add: approx_def)
  have x2': "\<bar>dval x - (dval d - dval p)\<bar> \<le> 85 / 100 * (unit_roundoff * Mp) + underflow_unit"
    using ax by (simp add: approx_def algebra_simps)
  then show "\<bar>dval x - (dval d - dval p)\<bar> \<le> E"
    unfolding E_def using W by linarith
  show "\<bar>dval x\<bar> \<le> Mp"
    using x2' pb W Mp(3) by linarith
qed

lemma first_step_bounds:
  assumes Mp: "0 < Mp" "Mp \<le> 5 / 4 * 2 ^ 1023" "underflow_unit \<le> Mp / 1000"
    and r: "is_fin r" "\<bar>dval r\<bar> \<le> Mp"
  defines "c0 \<equiv> d_mul (Num (Fin 1)) (Num (Fin 0.25))"
  defines "d0 \<equiv> d_mul r (Num (Fin 0.25))"
  defines "E \<equiv> 2 * (unit_roundoff * Mp) + underflow_unit"
  shows "is_fin c0" "\<bar>dval c0 - 1 / 4\<bar> \<le> 5 * unit_roundoff"
    "24 / 100 \<le> dval c0" "dval c0 \<le> 34 / 100"
    "is_fin d0" "\<bar>dval d0 - dval r / 4\<bar> \<le> E" "\<bar>dval d0\<bar> \<le> Mp / 2"
proof -
  note W = budget_facts[OF Mp(1)]
  note u = unit_roundoff_bounds eta_le_u
  have "approx c0 (dval (Num (Fin 1)) * dval (Num (Fin 0.25))) (unit_roundoff * 1 + underflow_unit)"
    unfolding c0_def by (rule d_mul_approx) (use range_facts in simp_all)
  then show "is_fin c0" and c2: "\<bar>dval c0 - 1 / 4\<bar> \<le> 5 * unit_roundoff"
    using u by (simp_all add: approx_def)
  show "24 / 100 \<le> dval c0" "dval c0 \<le> 34 / 100" using c2 u by linarith+
  have big: "Mp \<le> 19 / 10 * 2 ^ 1023" using Mp(1,2) range_facts(2) by linarith
  have q: "\<bar>dval r * dval (Num (Fin 0.25))\<bar> \<le> Mp" using r(2) by simp
  have f: "is_fin (Num (Fin 0.25))" by simp
  from d_mul_approx[OF r(1) f q big]
  have ad: "approx d0 (dval r / 4) (unit_roundoff * Mp + underflow_unit)"
    by (simp add: d0_def)
  show "is_fin d0" using ad by (simp add: approx_def)
  have d2': "\<bar>dval d0 - dval r / 4\<bar> \<le> unit_roundoff * Mp + underflow_unit"
    using ad by (simp add: approx_def)
  then show "\<bar>dval d0 - dval r / 4\<bar> \<le> E" unfolding E_def using W by linarith
  show "\<bar>dval d0\<bar> \<le> Mp / 2" using d2' r(2) W Mp(3) by linarith
qed


subsection \<open>The residual of one row\<close>

text \<open>Over the reals: \<open>dv\<close>, \<open>ci\<close>, \<open>t\<close>, \<open>di\<close>, \<open>pn\<close> and \<open>xi\<close> stand for the computed \<^verbatim>\<open>id\<close>,
  \<^verbatim>\<open>asc[i]\<close>, \<^verbatim>\<open>asd[i] - asd[i-1]\<close>, \<^verbatim>\<open>asd[i]\<close>, \<^verbatim>\<open>asc[i] * asb[i+1]\<close> and \<^verbatim>\<open>asb[i]\<close> of row \<open>i\<close>, and
  \<open>cp\<close>, \<open>dp\<close>, \<open>pp\<close>, \<open>xp\<close> for those of row \<open>i - 1\<close>. Each is within \<open>e\<close> (pivots) or \<open>E\<close>
  (the others) of the exact result of its operation on the computed operands.\<close>

lemma abs_prod_le:
  fixes a b A B :: real
  assumes "\<bar>a\<bar> \<le> A" "\<bar>b\<bar> \<le> B"
  shows "\<bar>a * b\<bar> \<le> A * B"
proof -
  have A: "0 \<le> A" using assms(1) by linarith
  have "\<bar>a\<bar> * \<bar>b\<bar> \<le> A * B"
    by (rule mult_mono[OF assms(1) assms(2) A abs_ge_zero])
  then show ?thesis by (simp add: abs_mult)
qed

lemma residual_interior:
  fixes cp dv ci r dp t di xp xi xn pp pn e E Mp :: real
  assumes dv: "365 / 100 \<le> dv" "dv \<le> 377 / 100"
    and a1: "\<bar>dv - (4 - cp)\<bar> \<le> e"
    and a2: "\<bar>ci - 1 / dv\<bar> \<le> e"
    and a3: "\<bar>t - (r - dp)\<bar> \<le> E"
    and a4: "\<bar>di - t / dv\<bar> \<le> E"
    and a5p: "\<bar>pp - cp * xi\<bar> \<le> E"
    and a6p: "\<bar>xp - (dp - pp)\<bar> \<le> E"
    and a5: "\<bar>pn - ci * xn\<bar> \<le> E"
    and a6: "\<bar>xi - (di - pn)\<bar> \<le> E"
    and xb: "\<bar>xi\<bar> \<le> Mp" "\<bar>xn\<bar> \<le> Mp"
  shows "\<bar>xp + 4 * xi + xn - r\<bar> \<le> 15 * E + 5 * (e * Mp)"
proof -
  define b1 where "b1 = dv - (4 - cp)"
  define b2 where "b2 = ci - 1 / dv"
  define b3 where "b3 = t - (r - dp)"
  define b4 where "b4 = di - t / dv"
  define b5p where "b5p = pp - cp * xi"
  define b6p where "b6p = xp - (dp - pp)"
  define b5 where "b5 = pn - ci * xn"
  define b6 where "b6 = xi - (di - pn)"
  define T1 where "T1 = b4 * dv"
  define T2 where "T2 = dv * (b2 * xn)"
  define T3 where "T3 = dv * (b6 - b5)"
  define T4 where "T4 = b1 * xi"
  have nz: "dv \<noteq> 0" using dv(1) by linarith
  have E0: "0 \<le> E" using a3 by linarith
  have e0: "0 \<le> e" using a1 by linarith
  have M0: "0 \<le> Mp" using xb(1) by linarith
  have dva: "\<bar>dv\<bar> \<le> 377 / 100" using dv by linarith
  have ident: "xp + 4 * xi + xn - r = b3 + T1 - T2 + T3 - T4 + (b6p - b5p)"
    unfolding T1_def T2_def T3_def T4_def b1_def b2_def b3_def b4_def b5p_def b6p_def
      b5_def b6_def using nz by (simp add: field_simps)
  have t1: "\<bar>T1\<bar> \<le> E * (377 / 100)"
    unfolding T1_def by (rule abs_prod_le) (use a4 dva in \<open>simp_all add: b4_def\<close>)
  have "\<bar>b2 * xn\<bar> \<le> e * Mp"
    by (rule abs_prod_le) (use a2 xb in \<open>simp_all add: b2_def\<close>)
  then have t2: "\<bar>T2\<bar> \<le> 377 / 100 * (e * Mp)"
    unfolding T2_def by (rule abs_prod_le[OF dva])
  have "\<bar>b6 - b5\<bar> \<le> 2 * E" using a5 a6 unfolding b5_def b6_def by linarith
  then have t3: "\<bar>T3\<bar> \<le> 377 / 100 * (2 * E)"
    unfolding T3_def by (rule abs_prod_le[OF dva])
  have t4: "\<bar>T4\<bar> \<le> e * Mp"
    unfolding T4_def by (rule abs_prod_le) (use a1 xb in \<open>simp_all add: b1_def\<close>)
  have eM: "0 \<le> e * Mp" using e0 M0 by simp
  have b3: "\<bar>b3\<bar> \<le> E" using a3 by (simp add: b3_def)
  have b56: "\<bar>b6p - b5p\<bar> \<le> 2 * E" using a5p a6p unfolding b5p_def b6p_def by linarith
  show ?thesis
    using t1 t2 t3 t4 b3 b56 eM E0 unfolding ident abs_le_iff by linarith
qed

lemma residual_first:
  fixes c0 d0 r p x0 x1 e E Mp :: real
  assumes a1: "\<bar>c0 - 1 / 4\<bar> \<le> e"
    and a2: "\<bar>d0 - r / 4\<bar> \<le> E"
    and a5: "\<bar>p - c0 * x1\<bar> \<le> E"
    and a6: "\<bar>x0 - (d0 - p)\<bar> \<le> E"
    and xb: "\<bar>x1\<bar> \<le> Mp"
  shows "\<bar>4 * x0 + x1 - r\<bar> \<le> 15 * E + 5 * (e * Mp)"
proof -
  define b1 where "b1 = c0 - 1 / 4"
  define b2 where "b2 = d0 - r / 4"
  define b5 where "b5 = p - c0 * x1"
  define b6 where "b6 = x0 - (d0 - p)"
  define T where "T = b1 * x1"
  have E0: "0 \<le> E" using a2 by linarith
  have e0: "0 \<le> e" using a1 by linarith
  have M0: "0 \<le> Mp" using xb by linarith
  have ident: "4 * x0 + x1 - r = 4 * b2 - 4 * T + 4 * b6 - 4 * b5"
    unfolding T_def b1_def b2_def b5_def b6_def by (simp add: field_simps)
  have t: "\<bar>T\<bar> \<le> e * Mp"
    unfolding T_def by (rule abs_prod_le) (use a1 xb in \<open>simp_all add: b1_def\<close>)
  have eM: "0 \<le> e * Mp" using e0 M0 by simp
  have b: "\<bar>b2\<bar> \<le> E" "\<bar>b5\<bar> \<le> E" "\<bar>b6\<bar> \<le> E"
    using a2 a5 a6 by (simp_all add: b2_def b5_def b6_def)
  show ?thesis
    using t b eM E0 unfolding ident abs_le_iff by linarith
qed

lemma residual_last:
  fixes cp dv r dp t xp xi pp e E Mp :: real
  assumes dv: "365 / 100 \<le> dv" "dv \<le> 377 / 100"
    and a1: "\<bar>dv - (4 - cp)\<bar> \<le> e"
    and a3: "\<bar>t - (r - dp)\<bar> \<le> E"
    and a4: "\<bar>xi - t / dv\<bar> \<le> E"
    and a5p: "\<bar>pp - cp * xi\<bar> \<le> E"
    and a6p: "\<bar>xp - (dp - pp)\<bar> \<le> E"
    and xb: "\<bar>xi\<bar> \<le> Mp"
  shows "\<bar>xp + 4 * xi - r\<bar> \<le> 15 * E + 5 * (e * Mp)"
proof -
  define b1 where "b1 = dv - (4 - cp)"
  define b3 where "b3 = t - (r - dp)"
  define b4 where "b4 = xi - t / dv"
  define b5p where "b5p = pp - cp * xi"
  define b6p where "b6p = xp - (dp - pp)"
  define T1 where "T1 = b4 * dv"
  define T4 where "T4 = b1 * xi"
  have nz: "dv \<noteq> 0" using dv(1) by linarith
  have E0: "0 \<le> E" using a3 by linarith
  have e0: "0 \<le> e" using a1 by linarith
  have M0: "0 \<le> Mp" using xb by linarith
  have dva: "\<bar>dv\<bar> \<le> 377 / 100" using dv by linarith
  have ident: "xp + 4 * xi - r = b3 + T1 - T4 + (b6p - b5p)"
    unfolding T1_def T4_def b1_def b3_def b4_def b5p_def b6p_def
    using nz by (simp add: field_simps)
  have t1: "\<bar>T1\<bar> \<le> E * (377 / 100)"
    unfolding T1_def by (rule abs_prod_le) (use a4 dva in \<open>simp_all add: b4_def\<close>)
  have t4: "\<bar>T4\<bar> \<le> e * Mp"
    unfolding T4_def by (rule abs_prod_le) (use a1 xb in \<open>simp_all add: b1_def\<close>)
  have eM: "0 \<le> e * Mp" using e0 M0 by simp
  have b3: "\<bar>b3\<bar> \<le> E" using a3 by (simp add: b3_def)
  have b56: "\<bar>b6p - b5p\<bar> \<le> 2 * E" using a5p a6p unfolding b5p_def b6p_def by linarith
  show ?thesis
    using t1 t4 b3 b56 eM E0 unfolding ident abs_le_iff by linarith
qed


subsection \<open>The residual of the solver in double arithmetic\<close>

lemma double_solver_residual:
  assumes len: "length asb = length rhs" "2 \<le> length rhs"
    and rhs: "\<forall>j<length rhs. is_fin (rhs ! j) \<and> \<bar>dval (rhs ! j)\<bar> \<le> Mp"
    and Mp: "0 < Mp" "Mp \<le> 5 / 4 * 2 ^ 1023" "underflow_unit \<le> Mp / 1000"
  shows "\<exists>x d. triagonal_solve_d asb rhs = Some (x, d) \<and> length x = length rhs
           \<and> (\<forall>i<length rhs. is_fin (x ! i))
           \<and> (\<forall>i<length rhs. \<bar>mat_vec tridiag (map dval x) ! i - dval (rhs ! i)\<bar>
                  \<le> 15 * (2 * (unit_roundoff * Mp) + underflow_unit)
                      + 5 * (5 * unit_roundoff * Mp))"
proof -
  define n where "n = length rhs"
  have n: "1 \<le> n" "2 \<le> n" "length asb = n" "length rhs = n"
    using len by (simp_all add: n_def)
  from triagonal_solve_d_relations[OF n(3) n(4) n(1)] obtain x c d where
    solve: "triagonal_solve_d asb rhs = Some (x, d)"
    and lens: "length x = n" "length c = n" "length d = n"
    and c0: "c ! 0 = d_mul (Num (Fin 1)) (Num (Fin 0.25))"
    and d0: "d ! 0 = d_mul (rhs ! 0) (Num (Fin 0.25))"
    and rel: "\<And>j. 0 < j \<and> j < n \<Longrightarrow>
                c ! j = d_div (Num (Fin 1)) (d_sub (Num (Fin 4)) (c ! (j - 1)))
              \<and> d ! j = d_div (d_sub (rhs ! j) (d ! (j - 1))) (d_sub (Num (Fin 4)) (c ! (j - 1)))"
    and xl: "x ! (n - 1) = d ! (n - 1)"
    and bks: "\<And>j. j < n - 1 \<Longrightarrow> x ! j = d_sub (d ! j) (d_mul (c ! j) (x ! (Suc j)))"
    by blast
  define E where "E = 2 * (unit_roundoff * Mp) + underflow_unit"
  define dv where "dv j = d_sub (Num (Fin 4)) (c ! (j - 1))" for j
  define t where "t j = d_sub (rhs ! j) (d ! (j - 1))" for j
  define p where "p j = d_mul (c ! j) (x ! (Suc j))" for j
  have relc: "c ! j = d_div (Num (Fin 1)) (dv j)" and reld: "d ! j = d_div (t j) (dv j)"
    if "0 < j" "j < n" for j
    using rel[of j] that by (simp_all add: dv_def t_def)
  have relx: "x ! j = d_sub (d ! j) (p j)" if "j < n - 1" for j
    using bks[OF that] by (simp add: p_def)
  have r: "is_fin (rhs ! j)" "\<bar>dval (rhs ! j)\<bar> \<le> Mp" if "j < n" for j
    using rhs that by (simp_all add: n_def)
  have sw: "is_fin (c ! j) \<and> 24 / 100 \<le> dval (c ! j) \<and> dval (c ! j) \<le> 34 / 100
            \<and> is_fin (d ! j) \<and> \<bar>dval (d ! j)\<bar> \<le> Mp / 2" if "j < n" for j
    using that
  proof (induction j)
    case 0
    from first_step_bounds[OF Mp r[OF 0]] show ?case unfolding c0 d0 by blast
  next
    case (Suc j)
    then have j: "j < n" by simp
    note ih = Suc.IH[OF j]
    have cp: "is_fin (c ! j)" "24 / 100 \<le> dval (c ! j)" "dval (c ! j) \<le> 34 / 100"
      and dp: "is_fin (d ! j)" "\<bar>dval (d ! j)\<bar> \<le> Mp / 2"
      using ih by blast+
    note piv = pivot_step[OF cp]
    have a: "dv (Suc j) = d_sub (Num (Fin 4)) (c ! j)" by (simp add: dv_def)
    have b: "t (Suc j) = d_sub (rhs ! Suc j) (d ! j)" by (simp add: t_def)
    note rs = rhs_step_bounds[OF Mp piv(1,3,4) r[OF Suc.prems] dp]
    show ?case
      unfolding relc[OF zero_less_Suc Suc.prems] reld[OF zero_less_Suc Suc.prems] a b
      using piv(5,7,8) rs(3,5) by blast
  qed
  have bk: "is_fin (x ! j) \<and> \<bar>dval (x ! j)\<bar> \<le> Mp" if "j < n" for j
    using that
  proof (induction "n - 1 - j" arbitrary: j)
    case 0
    then have "j = n - 1" by linarith
    moreover have "\<bar>dval (d ! (n - 1))\<bar> \<le> Mp"
      using sw[of "n - 1"] n(1) Mp(1) by linarith
    ultimately show ?case using xl sw[of "n - 1"] n(1) by simp
  next
    case (Suc k)
    then have j: "j < n - 1" "Suc j < n" "k = n - 1 - Suc j" by linarith+
    note ih = Suc.hyps(1)[OF j(3) j(2)]
    have cj: "is_fin (c ! j)" "24 / 100 \<le> dval (c ! j)" "dval (c ! j) \<le> 34 / 100"
      and dj: "is_fin (d ! j)" "\<bar>dval (d ! j)\<bar> \<le> Mp / 2"
      using sw[OF Suc.prems] by blast+
    have xn: "is_fin (x ! Suc j)" "\<bar>dval (x ! Suc j)\<bar> \<le> Mp" using ih by blast+
    note bs = back_step_bounds[OF Mp cj dj xn]
    show ?case unfolding bks[OF j(1)] using bs(3,5) by blast
  qed
  have piv: "is_fin (dv j)" "\<bar>dval (dv j) - (4 - dval (c ! (j - 1)))\<bar> \<le> 5 * unit_roundoff"
    "365 / 100 \<le> dval (dv j)" "dval (dv j) \<le> 377 / 100"
    "\<bar>dval (c ! j) - 1 / dval (dv j)\<bar> \<le> 5 * unit_roundoff"
    if "0 < j" "j < n" for j
  proof -
    have "j - 1 < n" using that by simp
    then have cp: "is_fin (c ! (j - 1))" "24 / 100 \<le> dval (c ! (j - 1))"
      "dval (c ! (j - 1)) \<le> 34 / 100"
      using sw[of "j - 1"] by blast+
    note ps = pivot_step[OF cp, folded dv_def]
    show "is_fin (dv j)" "\<bar>dval (dv j) - (4 - dval (c ! (j - 1)))\<bar> \<le> 5 * unit_roundoff"
      "365 / 100 \<le> dval (dv j)" "dval (dv j) \<le> 377 / 100"
      "\<bar>dval (c ! j) - 1 / dval (dv j)\<bar> \<le> 5 * unit_roundoff"
      unfolding relc[OF that] using ps by blast+
  qed
  have rh: "\<bar>dval (t j) - (dval (rhs ! j) - dval (d ! (j - 1)))\<bar> \<le> E"
    "\<bar>dval (d ! j) - dval (t j) / dval (dv j)\<bar> \<le> E"
    if "0 < j" "j < n" for j
  proof -
    have "j - 1 < n" using that by simp
    then have dp: "is_fin (d ! (j - 1))" "\<bar>dval (d ! (j - 1))\<bar> \<le> Mp / 2"
      using sw[of "j - 1"] by blast+
    note rs = rhs_step_bounds[OF Mp piv(1,3,4)[OF that] r[OF that(2)] dp, folded t_def E_def]
    show "\<bar>dval (t j) - (dval (rhs ! j) - dval (d ! (j - 1)))\<bar> \<le> E"
      "\<bar>dval (d ! j) - dval (t j) / dval (dv j)\<bar> \<le> E"
      unfolding reld[OF that] using rs by blast+
  qed
  have bs: "\<bar>dval (p j) - dval (c ! j) * dval (x ! Suc j)\<bar> \<le> E"
    "\<bar>dval (x ! j) - (dval (d ! j) - dval (p j))\<bar> \<le> E"
    if "j < n - 1" for j
  proof -
    have j: "j < n" "Suc j < n" using that by linarith+
    have cj: "is_fin (c ! j)" "24 / 100 \<le> dval (c ! j)" "dval (c ! j) \<le> 34 / 100"
      and dj: "is_fin (d ! j)" "\<bar>dval (d ! j)\<bar> \<le> Mp / 2"
      using sw[OF j(1)] by blast+
    have xn: "is_fin (x ! Suc j)" "\<bar>dval (x ! Suc j)\<bar> \<le> Mp" using bk[OF j(2)] by blast+
    note b = back_step_bounds[OF Mp cj dj xn, folded p_def E_def]
    show "\<bar>dval (p j) - dval (c ! j) * dval (x ! Suc j)\<bar> \<le> E"
      "\<bar>dval (x ! j) - (dval (d ! j) - dval (p j))\<bar> \<le> E"
      unfolding relx[OF that] using b by blast+
  qed
  have xb: "\<bar>dval (x ! j)\<bar> \<le> Mp" if "j < n" for j using bk[OF that] by blast
  have row: "\<bar>mat_vec tridiag (map dval x) ! i - dval (rhs ! i)\<bar>
               \<le> 15 * E + 5 * (5 * unit_roundoff * Mp)" if i: "i < n" for i
  proof -
    have "mat_vec tridiag (map dval x) ! i = (\<Sum>j<n. tridiag i j * map dval x ! j)"
      using i lens by (simp add: mat_vec_def)
    also have "\<dots> = (if 0 < i then map dval x ! (i - 1) else 0) + 4 * map dval x ! i
                      + (if Suc i < n then map dval x ! (Suc i) else 0)"
      by (rule tridiag_row[OF i])
    also have "\<dots> = (if 0 < i then dval (x ! (i - 1)) else 0) + 4 * dval (x ! i)
                      + (if Suc i < n then dval (x ! (Suc i)) else 0)"
      using i lens by simp
    finally have mv: "mat_vec tridiag (map dval x) ! i =
        (if 0 < i then dval (x ! (i - 1)) else 0) + 4 * dval (x ! i)
          + (if Suc i < n then dval (x ! (Suc i)) else 0)" .
    consider (first) "i = 0" | (last) "0 < i" "i = n - 1" | (inner) "0 < i" "Suc i < n"
      using i by linarith
    then show ?thesis
    proof cases
      case first
      have j: "0 < n - 1" "0 < n" "Suc 0 < n" using n(2) by linarith+
      from first_step_bounds[OF Mp r[OF j(2)], folded E_def]
      have f: "\<bar>dval (c ! 0) - 1 / 4\<bar> \<le> 5 * unit_roundoff"
        "\<bar>dval (d ! 0) - dval (rhs ! 0) / 4\<bar> \<le> E"
        unfolding c0 d0 by blast+
      from residual_first[OF f bs[OF j(1)] xb[OF j(3)]]
      show ?thesis unfolding mv using first j by simp
    next
      case last
      have j: "i - 1 < n - 1" "Suc (i - 1) = i" using last n(2) by linarith+
      have xi: "dval (x ! i) = dval (d ! i)" using last xl by simp
      note b = bs[OF j(1), unfolded j(2)]
      note h = rh[OF last(1) i]
      from residual_last[OF piv(3,4)[OF last(1) i] piv(2)[OF last(1) i] h(1)
          h(2)[folded xi] b xb[OF i]]
      show ?thesis unfolding mv using last by simp
    next
      case inner
      have j: "i - 1 < n - 1" "Suc (i - 1) = i" "i < n - 1" using inner by linarith+
      note bp = bs[OF j(1), unfolded j(2)]
      note bn = bs[OF j(3)]
      note h = rh[OF inner(1) i]
      from residual_interior[OF piv(3,4)[OF inner(1) i] piv(2)[OF inner(1) i]
          piv(5)[OF inner(1) i] h bp bn xb[OF i] xb[OF inner(2)]]
      show ?thesis unfolding mv using inner by simp
    qed
  qed
  have fin: "\<forall>i<length rhs. is_fin (x ! i)" using bk by (simp add: n_def)
  have res: "\<forall>i<length rhs. \<bar>mat_vec tridiag (map dval x) ! i - dval (rhs ! i)\<bar>
               \<le> 15 * (2 * (unit_roundoff * Mp) + underflow_unit) + 5 * (5 * unit_roundoff * Mp)"
    using row unfolding E_def n_def by blast
  from solve lens(1) fin res show ?thesis unfolding n_def by blast
qed


lemma triagonal_solve_double_tolerance:
  assumes len: "length asb = length rhs" "2 \<le> length rhs"
    and rhs: "\<forall>j<length rhs. is_fin (rhs ! j) \<and> \<bar>dval (rhs ! j)\<bar> \<le> M"
    and M: "M \<le> 2 ^ 1023"
  shows "\<exists>x d. triagonal_solve_d asb rhs = Some (x, d) \<and> length x = length rhs
           \<and> (\<forall>i<length rhs. is_fin (x ! i))
           \<and> (\<forall>i<length rhs. \<bar>mat_vec tridiag (map dval x) ! i - dval (rhs ! i)\<bar>
                  \<le> M / 10 ^ 9 + 2 powi (- 1070))"
proof -
  define Mp where "Mp = M + 2 powi (- 1060)"
  have "0 < length rhs" using len(2) by linarith
  then have "\<bar>dval (rhs ! 0)\<bar> \<le> M" using rhs by blast
  then have M0: "0 \<le> M" by linarith
  have small: "(0::real) < 2 powi (- 1060)" "(2::real) powi (- 1060) \<le> 1"
    "underflow_unit \<le> 2 powi (- 1060) / 1000"
    by (simp_all add: underflow_unit_def power_int_minus)
  have big: "(4::real) \<le> 2 ^ 1023" by simp
  have Mp: "0 < Mp" "Mp \<le> 5 / 4 * 2 ^ 1023" "underflow_unit \<le> Mp / 1000"
    using Mp_def M0 M small big by linarith+
  have rhs': "\<forall>j<length rhs. is_fin (rhs ! j) \<and> \<bar>dval (rhs ! j)\<bar> \<le> Mp"
  proof (intro allI impI)
    fix j assume "j < length rhs"
    then have "is_fin (rhs ! j)" "\<bar>dval (rhs ! j)\<bar> \<le> M" using rhs by simp_all
    then show "is_fin (rhs ! j) \<and> \<bar>dval (rhs ! j)\<bar> \<le> Mp"
      using Mp_def small(1) by linarith
  qed
  from double_solver_residual[OF len rhs' Mp] obtain x d where
    solve: "triagonal_solve_d asb rhs = Some (x, d)" and lx: "length x = length rhs"
    and fin: "\<forall>i<length rhs. is_fin (x ! i)"
    and res: "\<And>i. i < length rhs \<Longrightarrow> \<bar>mat_vec tridiag (map dval x) ! i - dval (rhs ! i)\<bar>
               \<le> 15 * (2 * (unit_roundoff * Mp) + underflow_unit) + 5 * (5 * unit_roundoff * Mp)"
    by blast
  have uM: "55 * (unit_roundoff * Mp)
              = 55 * (unit_roundoff * M) + 55 * (unit_roundoff * 2 powi (- 1060))"
    by (simp add: Mp_def algebra_simps)
  have "55 * unit_roundoff \<le> 1 / 10 ^ 9"
    by (simp add: unit_roundoff_def power_int_minus)
  then have "55 * unit_roundoff * M \<le> 1 / 10 ^ 9 * M" by (rule mult_right_mono[OF _ M0])
  then have rel: "55 * (unit_roundoff * M) \<le> M / 10 ^ 9" by simp
  have ab: "55 * (unit_roundoff * 2 powi (- 1060)) + 15 * underflow_unit \<le> 2 powi (- 1070)"
    by (simp add: unit_roundoff_def underflow_unit_def power_int_minus)
  have "15 * (2 * (unit_roundoff * Mp) + underflow_unit) + 5 * (5 * unit_roundoff * Mp)
          = 55 * (unit_roundoff * Mp) + 15 * underflow_unit" by simp
  also have "\<dots> \<le> M / 10 ^ 9 + 2 powi (- 1070)"
    unfolding uM using rel ab by linarith
  finally have "15 * (2 * (unit_roundoff * Mp) + underflow_unit) + 5 * (5 * unit_roundoff * Mp)
                  \<le> M / 10 ^ 9 + 2 powi (- 1070)" .
  then have "\<forall>i<length rhs. \<bar>mat_vec tridiag (map dval x) ! i - dval (rhs ! i)\<bar>
               \<le> M / 10 ^ 9 + 2 powi (- 1070)"
    using res by (meson order_trans)
  with solve lx fin show ?thesis by blast
qed

subsection \<open>Evaluation of double operations\<close>

text \<open>A number with at most 53 significant bits is rounded to itself; any other number
  in the normal range is rounded on the grid of its binade. On arrays of two elements
  the solver is five operations after the constants \<open>0.25\<close> and \<open>3.75\<close>.\<close>

lemma floor_log2_eq:
  assumes "2 powi e \<le> \<bar>r\<bar>" "\<bar>r\<bar> < 2 powi (e + 1)"
  shows "\<lfloor>log 2 \<bar>r\<bar>\<rfloor> = e"
proof -
  have pos: "0 < \<bar>r\<bar>" using assms(1) zero_less_power_int[of "2::real" e] by linarith
  have "2 powr (real_of_int e) \<le> \<bar>r\<bar>" using assms(1) by (simp add: two_powr_powi)
  moreover have "\<bar>r\<bar> < 2 powr (real_of_int e + 1)"
    using assms(2) two_powr_powi[of "e + 1"] by simp
  ultimately show ?thesis using floor_log_eq_powr_iff[OF pos, of 2 e] by simp
qed

lemma nearest_even_int [simp]: "nearest_even (of_int m) = m"
  by (simp add: nearest_even_def)

lemma rne_exact:
  assumes "2 powi e \<le> \<bar>r\<bar>" "\<bar>r\<bar> < 2 powi (e + 1)" "- 1022 \<le> e"
    and "r / 2 powi (e - 52) = of_int m"
  shows "rne r = r"
proof -
  have u: "ulp_of r = 2 powi (e - 52)"
    unfolding ulp_of_def floor_log2_eq[OF assms(1,2)] using assms(3) by (simp add: max_def)
  have nz: "(2::real) powi (e - 52) \<noteq> 0" by simp
  have "rne r = of_int m * 2 powi (e - 52)" unfolding rne_def u assms(4) by simp
  also have "\<dots> = r" unfolding assms(4)[symmetric] using nz by simp
  finally show ?thesis .
qed

lemma round_double_exact:
  assumes "2 powi e \<le> \<bar>r\<bar>" "\<bar>r\<bar> < 2 powi (e + 1)" "- 1022 \<le> e"
    and "r / 2 powi (e - 52) = of_int m"
  shows "round_double (Fin r) =
           (if 2 ^ 1024 \<le> \<bar>r\<bar> then (if r < 0 then NInf else PInf) else Num (Fin r))"
proof -
  have p: "(0::real) < 2 powi e" by simp
  have nz: "r \<noteq> 0"
  proof
    assume "r = 0"
    with assms(1) p show False by simp
  qed
  show ?thesis using nz by (simp add: round_double_def rne_exact[OF assms] Let_def)
qed

lemma rne_subnormal:
  assumes "r \<noteq> 0" "\<bar>r\<bar> < 2 powi (- 1022)"
  shows "rne r = of_int (nearest_even (r / 2 powi (- 1074))) * 2 powi (- 1074)"
proof -
  have "\<lfloor>log 2 \<bar>r\<bar>\<rfloor> < - 1022"
  proof (rule ccontr)
    assume "\<not> \<lfloor>log 2 \<bar>r\<bar>\<rfloor> < - 1022"
    then have "(2::real) powi (- 1022) \<le> 2 powi \<lfloor>log 2 \<bar>r\<bar>\<rfloor>"
      by (intro power_int_increasing) simp_all
    with two_powi_floor_log[OF assms(1)] assms(2) show False by linarith
  qed
  then have u: "ulp_of r = 2 powi (- 1074)" by (simp add: ulp_of_def max_def)
  show ?thesis unfolding rne_def u ..
qed

lemma d_ops_inf [simp]:
  "0 < y \<Longrightarrow> d_div NInf (Num (Fin y)) = NInf"
  "0 < y \<Longrightarrow> d_mul (Num (Fin y)) NInf = NInf"
  "d_sub (Num x) NInf = PInf"
  by (simp_all add: d_div_def d_mul_def d_sub_def d_add_def d_inf_def)

lemma d_const_quarter: "d_mul (Num (Fin 1)) (Num (Fin 0.25)) = Num (Fin 0.25)"
proof -
  have "round_double (Fin (1 / 4)) = Num (Fin (1 / 4))"
    by (subst round_double_exact[where e = "- 2" and m = "2 ^ 52"])
      (simp_all add: power_int_minus)
  then show ?thesis by (simp add: d_mul_def sr_mul_def)
qed

lemma d_const_pivot: "d_sub (Num (Fin 4)) (Num (Fin 0.25)) = Num (Fin 3.75)"
proof -
  have "round_double (Fin (15 / 4)) = Num (Fin (15 / 4))"
    by (subst round_double_exact[where e = 1 and m = "15 * 2 ^ 49"])
      (simp_all add: power_int_minus)
  then show ?thesis by (simp add: d_sub_def d_add_def sr_add_def sr_neg_def)
qed


lemma solve_two:
  "triagonal_solve_d [b0, b1] [r0, r1] =
     Some ([d_sub (d_mul r0 (Num (Fin 0.25)))
              (d_mul (Num (Fin 0.25))
                 (d_div (d_sub r1 (d_mul r0 (Num (Fin 0.25)))) (Num (Fin 3.75)))),
            d_div (d_sub r1 (d_mul r0 (Num (Fin 0.25)))) (Num (Fin 3.75))],
           [d_mul r0 (Num (Fin 0.25)),
            d_div (d_sub r1 (d_mul r0 (Num (Fin 0.25)))) (Num (Fin 3.75))])"
proof -
  have u: "[1..<2] = [1::nat]" "rev [0..<2 - 1] = [0::nat]"
    by (simp_all add: upt_rec)
  have c: "d_mul (Num (Fin 1)) (Num (Fin (1 / 4))) = Num (Fin (1 / 4))"
    "d_sub (Num (Fin 4)) (Num (Fin (1 / 4))) = Num (Fin (15 / 4))"
    using d_const_quarter d_const_pivot by simp_all
  show ?thesis
    by (simp add: triagonal_solve_d_def sweep_step_d_def back_step_d_def u c Let_def)
qed

lemma overflow_run:
  assumes "d_mul (Num (Fin a)) (Num (Fin 0.25)) = Num (Fin (a / 4))"
    and "d_sub (Num (Fin (- a))) (Num (Fin (a / 4))) = NInf"
  shows "triagonal_solve_d [b0, b1] [Num (Fin a), Num (Fin (- a))]
           = Some ([PInf, NInf], [Num (Fin (a / 4)), NInf])"
  unfolding solve_two assms by simp

lemma overflow_ops:
  "d_mul (Num (Fin (7 * 2 ^ 1021))) (Num (Fin 0.25)) = Num (Fin (7 * 2 ^ 1021 / 4))"
  "d_sub (Num (Fin (- (7 * 2 ^ 1021)))) (Num (Fin (7 * 2 ^ 1021 / 4))) = NInf"
proof -
  have "round_double (Fin (7 * 2 ^ 1019)) = Num (Fin (7 * 2 ^ 1019))"
    by (subst round_double_exact[where e = 1021 and m = "7 * 2 ^ 50"])
      (simp_all add: power_int_minus)
  then show "d_mul (Num (Fin (7 * 2 ^ 1021))) (Num (Fin 0.25)) = Num (Fin (7 * 2 ^ 1021 / 4))"
    by (simp add: d_mul_def sr_mul_def)
  have "round_double (Fin (- (35 * 2 ^ 1019))) = NInf"
    by (subst round_double_exact[where e = 1024 and m = "- (35 * 2 ^ 47)"])
      (simp_all add: power_int_minus)
  then show "d_sub (Num (Fin (- (7 * 2 ^ 1021)))) (Num (Fin (7 * 2 ^ 1021 / 4))) = NInf"
    by (simp add: d_sub_def d_add_def sr_add_def sr_neg_def)
qed

lemma underflow_ops:
  "d_mul (Num (Fin (2 powi (- 1074)))) (Num (Fin 0.25)) = Num (Fin 0)"
  "d_sub (Num (Fin 0)) (Num (Fin 0)) = Num (Fin 0)"
  "d_div (Num (Fin 0)) (Num (Fin 3.75)) = Num (Fin 0)"
  "d_mul (Num (Fin 0.25)) (Num (Fin 0)) = Num (Fin 0)"
proof -
  have "rne (2 powi (- 1076)) = 0"
    by (subst rne_subnormal) (simp_all add: power_int_minus nearest_even_def)
  then have "round_double (Fin (2 powi (- 1076))) = Num (Fin 0)"
    by (simp add: round_double_def zero_of_def)
  moreover have "sr_mul (Fin (2 powi (- 1074))) (Fin 0.25) = Fin (2 powi (- 1076))"
    by (simp add: sr_mul_def power_int_minus)
  ultimately show "d_mul (Num (Fin (2 powi (- 1074)))) (Num (Fin 0.25)) = Num (Fin 0)"
    by (simp only: d_mul_def prod.case double.case)
  show "d_sub (Num (Fin 0)) (Num (Fin 0)) = Num (Fin 0)"
    "d_div (Num (Fin 0)) (Num (Fin 3.75)) = Num (Fin 0)"
    "d_mul (Num (Fin 0.25)) (Num (Fin 0)) = Num (Fin 0)"
    by (simp_all add: d_sub_def d_add_def d_div_def d_mul_def sr_add_def sr_neg_def sr_mul_def
        round_double_def zero_of_def)
qed

lemma underflow_run:
  "triagonal_solve_d [b0, b1] [Num (Fin (2 powi (- 1074))), Num (Fin 0)]
     = Some ([Num (Fin 0), Num (Fin 0)], [Num (Fin 0), Num (Fin 0)])"
  unfolding solve_two underflow_ops ..

lemma exact_ops:
  "d_mul (Num (Fin 6)) (Num (Fin 0.25)) = Num (Fin 1.5)"
  "d_sub (Num (Fin 9)) (Num (Fin 1.5)) = Num (Fin 7.5)"
  "d_div (Num (Fin 7.5)) (Num (Fin 3.75)) = Num (Fin 2)"
  "d_mul (Num (Fin 0.25)) (Num (Fin 2)) = Num (Fin 0.5)"
  "d_sub (Num (Fin 1.5)) (Num (Fin 0.5)) = Num (Fin 1)"
proof -
  have r: "round_double (Fin (3 / 2)) = Num (Fin (3 / 2))"
    "round_double (Fin (15 / 2)) = Num (Fin (15 / 2))"
    "round_double (Fin 2) = Num (Fin 2)"
    "round_double (Fin (1 / 2)) = Num (Fin (1 / 2))"
    "round_double (Fin 1) = Num (Fin 1)"
    by (subst round_double_exact[where e = 0 and m = "3 * 2 ^ 51"], simp_all add: power_int_minus)
      (subst round_double_exact[where e = 2 and m = "15 * 2 ^ 49"], simp_all add: power_int_minus,
       subst round_double_exact[where e = 1 and m = "2 ^ 52"], simp_all add: power_int_minus,
       subst round_double_exact[where e = "- 1" and m = "2 ^ 52"], simp_all add: power_int_minus,
       subst round_double_exact[where e = 0 and m = "2 ^ 52"], simp_all add: power_int_minus)
  show "d_mul (Num (Fin 6)) (Num (Fin 0.25)) = Num (Fin 1.5)"
    "d_sub (Num (Fin 9)) (Num (Fin 1.5)) = Num (Fin 7.5)"
    "d_div (Num (Fin 7.5)) (Num (Fin 3.75)) = Num (Fin 2)"
    "d_mul (Num (Fin 0.25)) (Num (Fin 2)) = Num (Fin 0.5)"
    "d_sub (Num (Fin 1.5)) (Num (Fin 0.5)) = Num (Fin 1)"
    using r by (simp_all add: d_sub_def d_add_def d_div_def d_mul_def sr_add_def sr_neg_def
        sr_mul_def)
qed

lemma exact_run:
  "triagonal_solve_d [b0, b1] [Num (Fin 6), Num (Fin 9)]
     = Some ([Num (Fin 1), Num (Fin 2)], [Num (Fin 1.5), Num (Fin 2)])"
  unfolding solve_two exact_ops ..

lemma rne_normal:
  assumes "2 powi e \<le> \<bar>r\<bar>" "\<bar>r\<bar> < 2 powi (e + 1)" "- 1022 \<le> e"
  shows "rne r = of_int (nearest_even (r / 2 powi (e - 52))) * 2 powi (e - 52)"
proof -
  have u: "ulp_of r = 2 powi (e - 52)"
    unfolding ulp_of_def floor_log2_eq[OF assms(1,2)] using assms(3) by (simp add: max_def)
  show ?thesis unfolding rne_def u ..
qed

lemma entry_ops:
  "d_sub (Num (Fin (2 powi (- 70)))) (Num (Fin 0.25)) = Num (Fin (- 0.25))"
  "d_div (Num (Fin (- 0.25))) (Num (Fin 3.75)) = Num (Fin (- (4803839602528529 / 2 ^ 56)))"
  "d_mul (Num (Fin 0.25)) (Num (Fin (- (4803839602528529 / 2 ^ 56))))
     = Num (Fin (- (4803839602528529 / 2 ^ 58)))"
  "d_sub (Num (Fin 0.25)) (Num (Fin (- (4803839602528529 / 2 ^ 58))))
     = Num (Fin (4803839602528529 / 2 ^ 54))"
proof -
  have "rne (2 powi (- 70) - 1 / 4) = - (1 / 4)"
    by (subst rne_normal[where e = "- 3"]) (simp_all add: power_int_minus nearest_even_def)
  then have "round_double (Fin (2 powi (- 70) - 1 / 4)) = Num (Fin (- (1 / 4)))"
    by (simp add: round_double_def power_int_minus)
  then show "d_sub (Num (Fin (2 powi (- 70)))) (Num (Fin 0.25)) = Num (Fin (- 0.25))"
    by (simp add: d_sub_def d_add_def sr_add_def sr_neg_def power_int_minus)
  have "rne (- (1 / 15)) = - (4803839602528529 / 2 ^ 56)"
    by (subst rne_normal[where e = "- 4"]) (simp_all add: power_int_minus nearest_even_def)
  then have "round_double (Fin (- (1 / 15))) = Num (Fin (- (4803839602528529 / 2 ^ 56)))"
    by (simp add: round_double_def)
  then show "d_div (Num (Fin (- 0.25))) (Num (Fin 3.75))
               = Num (Fin (- (4803839602528529 / 2 ^ 56)))"
    by (simp add: d_div_def)
  have "round_double (Fin (- (4803839602528529 / 2 ^ 58)))
          = Num (Fin (- (4803839602528529 / 2 ^ 58)))"
    by (subst round_double_exact[where e = "- 6" and m = "- 4803839602528529"])
      (simp_all add: power_int_minus)
  then show "d_mul (Num (Fin 0.25)) (Num (Fin (- (4803839602528529 / 2 ^ 56))))
     = Num (Fin (- (4803839602528529 / 2 ^ 58)))"
    by (simp add: d_mul_def sr_mul_def)
  have "rne (1 / 4 + 4803839602528529 / 2 ^ 58) = 4803839602528529 / 2 ^ 54"
    by (subst rne_normal[where e = "- 2"]) (simp_all add: power_int_minus nearest_even_def)
  then have "round_double (Fin (1 / 4 + 4803839602528529 / 2 ^ 58))
               = Num (Fin (4803839602528529 / 2 ^ 54))"
    by (simp add: round_double_def)
  then show "d_sub (Num (Fin 0.25)) (Num (Fin (- (4803839602528529 / 2 ^ 58))))
     = Num (Fin (4803839602528529 / 2 ^ 54))"
    by (simp add: d_sub_def d_add_def sr_add_def sr_neg_def)
qed

lemma entry_run:
  "triagonal_solve_d [b0, b1] [Num (Fin 1), Num (Fin (2 powi (- 70)))]
     = Some ([Num (Fin (4803839602528529 / 2 ^ 54)), Num (Fin (- (4803839602528529 / 2 ^ 56)))],
             [Num (Fin 0.25), Num (Fin (- (4803839602528529 / 2 ^ 56)))])"
  unfolding solve_two d_const_quarter entry_ops ..

section \<open>The solver solves the system\<close>

lemma triagonal_solve_exact:
  assumes "length asb = length rhs" and "2 \<le> length rhs"
  shows "\<exists>x d. triagonal_solve asb rhs = Some (x, d) \<and> length x = length rhs
           \<and> mat_vec tridiag x = rhs"
proof -
  have n: "1 \<le> length rhs" using assms(2) by simp
  from triagonal_solve_relations[OF assms(1) refl n] obtain x c d where
    solve: "triagonal_solve asb rhs = Some (x, d)"
    and len: "length x = length rhs"
    and c0: "c ! 0 = 1 / 4" and d0: "d ! 0 = rhs ! 0 / 4"
    and rel: "\<forall>j. 0 < j \<and> j < length rhs \<longrightarrow> c ! j = 1 / (4 - c ! (j - 1))
                \<and> d ! j = (rhs ! j - d ! (j - 1)) / (4 - c ! (j - 1))"
    and xl: "x ! (length rhs - 1) = d ! (length rhs - 1)"
    and bks: "\<forall>j. j < length rhs - 1 \<longrightarrow> x ! j = d ! j - c ! j * x ! (Suc j)"
    by blast
  have "mat_vec tridiag x = rhs"
  proof (rule nth_equalityI)
    show "length (mat_vec tridiag x) = length rhs" by (simp add: mat_vec_def len)
  next
    fix i assume "i < length (mat_vec tridiag x)"
    then have i: "i < length rhs" by (simp add: mat_vec_def len)
    then have "mat_vec tridiag x ! i = (\<Sum>j<length rhs. tridiag i j * x ! j)"
      by (simp add: mat_vec_def len)
    also have "\<dots> = rhs ! i"
      unfolding tridiag_row[OF i] by (rule thomas_rows[OF n c0 d0 rel xl bks i])
    finally show "mat_vec tridiag x ! i = rhs ! i" .
  qed
  with solve len show ?thesis by blast
qed

text \<open>
  Claim C1 says that the output \<open>x\<close> of \<^verbatim>\<open>triagonal_solve\<close> satisfies \<open>A \<cdot> x = rhs\<close> for every
  right-hand side, within a relative tolerance of \<open>10\<^sup>-\<^sup>9\<close> in floating-point arithmetic.
  In double arithmetic this fails at both ends of the range. For
  \<open>rhs = [7 \<cdot> 2\<^sup>1\<^sup>0\<^sup>2\<^sup>1, -7 \<cdot> 2\<^sup>1\<^sup>0\<^sup>2\<^sup>1]\<close> the difference \<^verbatim>\<open>asd[1] - asd[0]\<close> overflows and the
  output is \<open>[+\<infinity>, -\<infinity>]\<close>. For \<open>rhs = [2\<^sup>-\<^sup>1\<^sup>0\<^sup>7\<^sup>4, 0]\<close> the product \<^verbatim>\<open>asd[0] * 0.25\<close> is rounded
  to zero, the output is \<open>[0, 0]\<close>, and the first row of \<open>A \<cdot> x\<close> misses \<open>rhs\<close> by the whole
  of it. Between the two ends the tolerance cannot be relative to each entry of \<open>rhs\<close> by
  itself: for \<open>rhs = [1, 2\<^sup>-\<^sup>7\<^sup>0]\<close> the difference \<^verbatim>\<open>asd[1] - asd[0]\<close> is rounded to \<open>-1/4\<close>, the
  output is the one for \<open>rhs = [1, 0]\<close>, and the second row of \<open>A \<cdot> x\<close> is 0.
\<close>

theorem triagonal_solve_counterexample:
  "triagonal_solve_d [Num (Fin 0), Num (Fin 0)]
       [Num (Fin (7 * 2 ^ 1021)), Num (Fin (- (7 * 2 ^ 1021)))]
     = Some ([PInf, NInf], [Num (Fin (7 * 2 ^ 1019)), NInf])
   \<and> \<not> is_fin PInf \<and> \<not> is_fin NInf
   \<and> triagonal_solve_d [Num (Fin 0), Num (Fin 0)] [Num (Fin (2 powi (- 1074))), Num (Fin 0)]
     = Some ([Num (Fin 0), Num (Fin 0)], [Num (Fin 0), Num (Fin 0)])
   \<and> mat_vec tridiag (map dval [Num (Fin 0), Num (Fin 0)]) ! 0 = 0
   \<and> \<not> \<bar>0 - dval (Num (Fin (2 powi (- 1074))))\<bar> \<le> \<bar>dval (Num (Fin (2 powi (- 1074))))\<bar> / 10 ^ 9
   \<and> triagonal_solve_d [Num (Fin 0), Num (Fin 0)] [Num (Fin 1), Num (Fin (2 powi (- 70)))]
     = Some ([Num (Fin (4803839602528529 / 2 ^ 54)), Num (Fin (- (4803839602528529 / 2 ^ 56)))],
             [Num (Fin 0.25), Num (Fin (- (4803839602528529 / 2 ^ 56)))])
   \<and> mat_vec tridiag (map dval [Num (Fin (4803839602528529 / 2 ^ 54)),
                                   Num (Fin (- (4803839602528529 / 2 ^ 56)))]) ! 1 = 0
   \<and> \<not> \<bar>0 - dval (Num (Fin (2 powi (- 70))))\<bar> \<le> \<bar>dval (Num (Fin (2 powi (- 70))))\<bar> / 10 ^ 9"
  using overflow_run [OF overflow_ops, of "Num (Fin 0)" "Num (Fin 0)"]
    underflow_run [of "Num (Fin 0)" "Num (Fin 0)"]
    entry_run [of "Num (Fin 0)" "Num (Fin 0)"]
  by (simp add: mat_vec_def tridiag_def lessThan_Suc numeral_2_eq_2 power_int_minus)

text \<open>
  Claim C1 as amended. For every right-hand side of length \<open>n \<ge> 2\<close> (and a result array of
  the same length, as the caller passes it), \<^verbatim>\<open>triagonal_solve\<close> returns, without leaving
  its arrays, a vector \<open>x\<close> of length \<open>n\<close>, where \<open>A\<close> is the tridiagonal matrix with 4 on the
  diagonal and 1 on both adjacent diagonals, such that

  \<^item> in exact arithmetic, \<open>A \<cdot> x = rhs\<close>;
  \<^item> in double arithmetic, when every entry of \<open>rhs\<close> is finite and at most \<open>M \<le> 2\<^sup>1\<^sup>0\<^sup>2\<^sup>3\<close> in
    magnitude, every entry of \<open>x\<close> is finite and every row of \<open>A \<cdot> x\<close>, computed exactly from
    the doubles of \<open>x\<close>, is within \<open>10\<^sup>-\<^sup>9 \<cdot> M + 2\<^sup>-\<^sup>1\<^sup>0\<^sup>7\<^sup>0\<close> of the entry of \<open>rhs\<close>: the tolerance is
    relative to the largest entry of \<open>rhs\<close>, and the second term covers underflow.
\<close>

theorem triagonal_solve_correct:
  "(length asb = length rhs \<and> 2 \<le> length rhs \<longrightarrow>
      (\<exists>x d. triagonal_solve asb rhs = Some (x, d) \<and> length x = length rhs
             \<and> mat_vec tridiag x = rhs))
   \<and> (length dsb = length drhs \<and> 2 \<le> length drhs
        \<and> (\<forall>j<length drhs. is_fin (drhs ! j) \<and> \<bar>dval (drhs ! j)\<bar> \<le> M) \<and> M \<le> 2 ^ 1023 \<longrightarrow>
      (\<exists>x d. triagonal_solve_d dsb drhs = Some (x, d) \<and> length x = length drhs
             \<and> (\<forall>i<length drhs. is_fin (x ! i))
             \<and> (\<forall>i<length drhs. \<bar>mat_vec tridiag (map dval x) ! i - dval (drhs ! i)\<bar>
                    \<le> M / 10 ^ 9 + 2 powi (- 1070))))"
  using triagonal_solve_exact [of asb rhs] triagonal_solve_double_tolerance [of dsb drhs M]
  by blast

theorem triagonal_solve_correct_witness:
  "length [0, 0 :: real] = length [6, 9 :: real] \<and> 2 \<le> length [6, 9 :: real]
   \<and> triagonal_solve [0, 0] [6, 9] = Some ([1, 2], [3 / 2, 2])
   \<and> mat_vec tridiag [1, 2] = [6, 9]
   \<and> length [Num (Fin 0), Num (Fin 0)] = length [Num (Fin 6), Num (Fin 9)]
   \<and> 2 \<le> length [Num (Fin 6), Num (Fin 9)]
   \<and> is_fin (Num (Fin 6)) \<and> \<bar>dval (Num (Fin 6))\<bar> \<le> 9
   \<and> is_fin (Num (Fin 9)) \<and> \<bar>dval (Num (Fin 9))\<bar> \<le> 9
   \<and> (9 :: real) \<le> 2 ^ 1023
   \<and> triagonal_solve_d [Num (Fin 0), Num (Fin 0)] [Num (Fin 6), Num (Fin 9)]
       = Some ([Num (Fin 1), Num (Fin 2)], [Num (Fin 1.5), Num (Fin 2)])
   \<and> mat_vec tridiag (map dval [Num (Fin 1), Num (Fin 2)]) = [6, 9]"
  using triagonal_solve_correct [of "[0, 0]" "[6, 9]" "[Num (Fin 0), Num (Fin 0)]"
      "[Num (Fin 6), Num (Fin 9)]" 9]
    exact_run [of "Num (Fin 0)" "Num (Fin 0)"]
  by (simp add: triagonal_solve_def sweep_step_def back_step_def mat_vec_def tridiag_def
      lessThan_Suc numeral_2_eq_2)

section \<open>Short strokes\<close>

text \<open>
  Claim C2. A stroke with fewer than 18 scalars (fewer than 3 anchors) is returned as it
  is, for every setting: the same scalars, hence the same number of them, and the same
  closed flag.
\<close>

theorem short_stroke_unchanged:
  "length ctlpts < 18 \<Longrightarrow> set_bezier_path sv ctlpts is_closed = Some (ctlpts, is_closed)"
  by (simp add: set_bezier_path_def)

theorem short_stroke_unchanged_witness:
  "length [1, 2, 3, 4, 5, 6, 7, 8, 9, 10, 11, 12 :: real] < 18 \<and>
   set_bezier_path \<lparr>smooth_specified = 1, ang_min = 60, ang_max = 120\<rparr>
     [1, 2, 3, 4, 5, 6, 7, 8, 9, 10, 11, 12] True
   = Some ([1, 2, 3, 4, 5, 6, 7, 8, 9, 10, 11, 12], True)"
  using short_stroke_unchanged [of "[1, 2, 3, 4, 5, 6, 7, 8, 9, 10, 11, 12]"
      "\<lparr>smooth_specified = 1, ang_min = 60, ang_max = 120\<rparr>" True]
  by simp

section \<open>The corner classifier\<close>

lemma corner_angle_right: "corner_angle (Fin 0) (Fin 0) (Fin 1) (Fin 0) (Fin 1) (Fin 1) = 90"
  by (simp add: corner_angle_def sreal_eval atan2_Fin rad_to_deg_def)

lemma corner_angle_straight: "corner_angle (Fin 0) (Fin 0) (Fin 1) (Fin 0) (Fin 2) (Fin 0) = 180"
  by (simp add: corner_angle_def sreal_eval atan2_Fin rad_to_deg_def)

text \<open>
  Claim C5. With \<^verbatim>\<open>smooth_specified\<close> on and bounds \<open>a < b\<close>: for a corner whose angle is
  neither \<open>a\<close> nor \<open>b\<close>, the classifier under (\<open>ang_min = a\<close>, \<open>ang_max = b\<close>) accepts exactly
  when the classifier under (\<open>ang_min = b\<close>, \<open>ang_max = a\<close>) rejects; for a corner whose
  angle is \<open>a\<close> or \<open>b\<close>, both reject.
\<close>

theorem and_or_complement:
  assumes "smooth_specified sv \<noteq> 0" and "a < b"
  shows "(corner_angle vax vay vbx vby vcx vcy \<noteq> a \<and> corner_angle vax vay vbx vby vcx vcy \<noteq> b \<longrightarrow>
           (angle_between (sv\<lparr>ang_min := a, ang_max := b\<rparr>) vax vay vbx vby vcx vcy \<noteq> 0)
           = (\<not> (angle_between (sv\<lparr>ang_min := b, ang_max := a\<rparr>) vax vay vbx vby vcx vcy \<noteq> 0)))
       \<and> (corner_angle vax vay vbx vby vcx vcy = a \<or> corner_angle vax vay vbx vby vcx vcy = b \<longrightarrow>
           angle_between (sv\<lparr>ang_min := a, ang_max := b\<rparr>) vax vay vbx vby vcx vcy = 0
           \<and> angle_between (sv\<lparr>ang_min := b, ang_max := a\<rparr>) vax vay vbx vby vcx vcy = 0)"
  using assms by (auto simp: angle_between_def Let_def)

theorem and_or_complement_witness:
  "smooth_specified \<lparr>smooth_specified = 1, ang_min = 0, ang_max = 0\<rparr> \<noteq> 0
   \<and> (60 :: real) < 120
   \<and> corner_angle (Fin 0) (Fin 0) (Fin 1) (Fin 0) (Fin 1) (Fin 1) \<noteq> 60
   \<and> corner_angle (Fin 0) (Fin 0) (Fin 1) (Fin 0) (Fin 1) (Fin 1) \<noteq> 120
   \<and> angle_between \<lparr>smooth_specified = 1, ang_min = 60, ang_max = 120\<rparr>
        (Fin 0) (Fin 0) (Fin 1) (Fin 0) (Fin 1) (Fin 1) = 1
   \<and> angle_between \<lparr>smooth_specified = 1, ang_min = 120, ang_max = 60\<rparr>
        (Fin 0) (Fin 0) (Fin 1) (Fin 0) (Fin 1) (Fin 1) = 0
   \<and> (60 :: real) < 180
   \<and> corner_angle (Fin 0) (Fin 0) (Fin 1) (Fin 0) (Fin 2) (Fin 0) = 180
   \<and> angle_between \<lparr>smooth_specified = 1, ang_min = 60, ang_max = 180\<rparr>
        (Fin 0) (Fin 0) (Fin 1) (Fin 0) (Fin 2) (Fin 0) = 0
   \<and> angle_between \<lparr>smooth_specified = 1, ang_min = 180, ang_max = 60\<rparr>
        (Fin 0) (Fin 0) (Fin 1) (Fin 0) (Fin 2) (Fin 0) = 0"
  using and_or_complement [of "\<lparr>smooth_specified = 1, ang_min = 0, ang_max = 0\<rparr>" 60 120
      "Fin 0" "Fin 0" "Fin 1" "Fin 0" "Fin 1" "Fin 1"]
    and_or_complement [of "\<lparr>smooth_specified = 1, ang_min = 0, ang_max = 0\<rparr>" 60 180
      "Fin 0" "Fin 0" "Fin 1" "Fin 0" "Fin 2" "Fin 0"]
  by (simp add: corner_angle_right corner_angle_straight angle_between_def)

subsection \<open>Corners with a vector of length zero\<close>

lemma atan2_zero:
  "val y = 0 \<Longrightarrow> val x = 0 \<Longrightarrow> \<bar>rad_to_deg (atan2 y x)\<bar> = (if signbit x then 180 else 0)"
  by (simp add: atan2_def rad_to_deg_def)

lemma signbit_zero_sum:
  "val x = 0 \<Longrightarrow> val y = 0 \<Longrightarrow> signbit (sr_add x y) = (signbit x \<and> signbit y)"
  by (simp add: sr_add_def zero_of_def)

lemma signbit_zero_product:
  "val x = 0 \<or> val y = 0 \<Longrightarrow> signbit (sr_mul x y) = (signbit x \<noteq> signbit y)"
  by (auto simp: sr_mul_def zero_of_def)

lemma zero_vector_angle:
  assumes "(val v1x = 0 \<and> val v1y = 0) \<or> (val v2x = 0 \<and> val v2y = 0)"
  shows "180 - \<bar>rad_to_deg (atan2 (sr_add (sr_mul (sr_neg v1y) v2x) (sr_mul v1x v2y))
                                    (sr_add (sr_mul v1x v2x) (sr_mul v1y v2y)))\<bar>
           = (if signbit v1x \<noteq> signbit v2x \<and> signbit v1y \<noteq> signbit v2y then 0 else 180)"
proof -
  have px: "val (sr_mul v1x v2x) = 0" and py: "val (sr_mul v1y v2y) = 0"
    and qx: "val (sr_mul (sr_neg v1y) v2x) = 0" and qy: "val (sr_mul v1x v2y) = 0"
    using assms by auto
  have sx: "signbit (sr_mul v1x v2x) = (signbit v1x \<noteq> signbit v2x)"
    and sy: "signbit (sr_mul v1y v2y) = (signbit v1y \<noteq> signbit v2y)"
    using assms signbit_zero_product[of v1x v2x] signbit_zero_product[of v1y v2y] by blast+
  have y0: "val (sr_add (sr_mul (sr_neg v1y) v2x) (sr_mul v1x v2y)) = 0"
    unfolding val_sr_add qx qy by simp
  have x0: "val (sr_add (sr_mul v1x v2x) (sr_mul v1y v2y)) = 0"
    unfolding val_sr_add px py by simp
  show ?thesis
    unfolding atan2_zero[OF y0 x0] by (simp add: signbit_zero_sum[OF px py] sx sy)
qed

lemma corner_angle_degenerate:
  assumes "(val vax = val vbx \<and> val vay = val vby) \<or> (val vbx = val vcx \<and> val vby = val vcy)"
  shows "corner_angle vax vay vbx vby vcx vcy =
           (if signbit (sr_sub vbx vax) \<noteq> signbit (sr_sub vcx vbx)
               \<and> signbit (sr_sub vby vay) \<noteq> signbit (sr_sub vcy vby)
            then 0 else 180)"
proof -
  have "(val (sr_sub vbx vax) = 0 \<and> val (sr_sub vby vay) = 0)
      \<or> (val (sr_sub vcx vbx) = 0 \<and> val (sr_sub vcy vby) = 0)"
    using assms by auto
  from zero_vector_angle[OF this] show ?thesis
    unfolding corner_angle_def Let_def .
qed

text \<open>
  Claim C8 says that a corner with \<open>prev = cur\<close> or \<open>cur = next\<close> has the computed angle
  180. It has not always: both arguments of \<^verbatim>\<open>atan2\<close> are zeros there, and when the second
  one is \<^verbatim>\<open>-0.0\<close> the result is \<open>\<plusminus>\<pi>\<close> and the angle 0. With \<open>prev = cur = (1, 1)\<close> and
  \<open>next = (0, 0)\<close> the second argument is \<open>0 \<cdot> (-1) + 0 \<cdot> (-1)\<close>, a sum of two negative
  zeros: the angle is 0, and under the bounds \<open>ang_min = 180\<close>, \<open>ang_max = 60\<close> the corner
  is accepted, which an angle of 180 would not be.
\<close>

theorem degenerate_corner_counterexample:
  "corner_angle (Fin 1) (Fin 1) (Fin 1) (Fin 1) (Fin 0) (Fin 0) = 0
   \<and> angle_between \<lparr>smooth_specified = 1, ang_min = 180, ang_max = 60\<rparr>
        (Fin 1) (Fin 1) (Fin 1) (Fin 1) (Fin 0) (Fin 0) = 1"
  by (simp add: angle_between_def corner_angle_degenerate)

text \<open>
  Claim C8 as amended. With \<^verbatim>\<open>smooth_specified\<close> on, a corner with \<open>prev = cur\<close> or
  \<open>cur = next\<close> (as the comparison of doubles has it: the two zeros are equal) has the
  computed angle 0 or 180. With \<open>v1 = cur - prev\<close> and \<open>v2 = next - cur\<close> as the program
  computes them, the angle is 0 when \<open>v1x\<close> and \<open>v2x\<close> differ in sign and \<open>v1y\<close> and \<open>v2y\<close>
  differ in sign too, and 180 otherwise. The classifier returns the truth value of its
  comparison of that angle with the two bounds: 0 or 1, no failure.
\<close>

theorem degenerate_corner:
  assumes "smooth_specified sv \<noteq> 0"
    and "(val vax = val vbx \<and> val vay = val vby) \<or> (val vbx = val vcx \<and> val vby = val vcy)"
  shows "\<exists>ret. ret = (if signbit (sr_sub vbx vax) \<noteq> signbit (sr_sub vcx vbx)
                        \<and> signbit (sr_sub vby vay) \<noteq> signbit (sr_sub vcy vby)
                     then 0 else 180)
           \<and> corner_angle vax vay vbx vby vcx vcy = ret
           \<and> angle_between sv vax vay vbx vby vcx vcy =
               (if ang_max sv > ang_min sv then of_bool (ret < ang_max sv \<and> ret > ang_min sv)
                else of_bool (ret < ang_max sv \<or> ret > ang_min sv))"
  using assms(1) corner_angle_degenerate [OF assms(2)] by (simp add: angle_between_def)

theorem degenerate_corner_witness:
  "smooth_specified \<lparr>smooth_specified = 1, ang_min = 60, ang_max = 120\<rparr> \<noteq> 0
   \<and> corner_angle (Fin 1) (Fin 1) (Fin 1) (Fin 1) (Fin 0) (Fin 0) = 0
   \<and> angle_between \<lparr>smooth_specified = 1, ang_min = 60, ang_max = 120\<rparr>
        (Fin 1) (Fin 1) (Fin 1) (Fin 1) (Fin 0) (Fin 0) = 0
   \<and> corner_angle (Fin 3) (Fin 4) (Fin 0) (Fin 0) (Fin 0) (Fin 0) = 0
   \<and> angle_between \<lparr>smooth_specified = 1, ang_min = 190, ang_max = 60\<rparr>
        (Fin 3) (Fin 4) (Fin 0) (Fin 0) (Fin 0) (Fin 0) = 1
   \<and> corner_angle (Fin 0) (Fin 0) (Fin 0) (Fin 0) (Fin 1) (Fin 1) = 180
   \<and> angle_between \<lparr>smooth_specified = 1, ang_min = 120, ang_max = 60\<rparr>
        (Fin 0) (Fin 0) (Fin 0) (Fin 0) (Fin 1) (Fin 1) = 1
   \<and> corner_angle (Fin 0) (Fin 0) NegZero (Fin 0) (Fin 1) (Fin (- 1)) = 0
   \<and> corner_angle (Fin 2) (Fin 5) (Fin 2) (Fin 5) (Fin 2) (Fin 5) = 180"
  using degenerate_corner [where sv = "\<lparr>smooth_specified = 1, ang_min = 60, ang_max = 120\<rparr>"
      and vax = "Fin 1" and vay = "Fin 1" and vbx = "Fin 1" and vby = "Fin 1"
      and vcx = "Fin 0" and vcy = "Fin 0"]
    degenerate_corner [where sv = "\<lparr>smooth_specified = 1, ang_min = 190, ang_max = 60\<rparr>"
      and vax = "Fin 3" and vay = "Fin 4" and vbx = "Fin 0" and vby = "Fin 0"
      and vcx = "Fin 0" and vcy = "Fin 0"]
    degenerate_corner [where sv = "\<lparr>smooth_specified = 1, ang_min = 120, ang_max = 60\<rparr>"
      and vax = "Fin 0" and vay = "Fin 0" and vbx = "Fin 0" and vby = "Fin 0"
      and vcx = "Fin 1" and vcy = "Fin 1"]
    degenerate_corner [where sv = "\<lparr>smooth_specified = 1, ang_min = 60, ang_max = 120\<rparr>"
      and vax = "Fin 0" and vay = "Fin 0" and vbx = NegZero and vby = "Fin 0"
      and vcx = "Fin 1" and vcy = "Fin (- 1)"]
    degenerate_corner [where sv = "\<lparr>smooth_specified = 1, ang_min = 60, ang_max = 120\<rparr>"
      and vax = "Fin 2" and vay = "Fin 5" and vbx = "Fin 2" and vby = "Fin 5"
      and vcx = "Fin 2" and vcy = "Fin 5"]
  by (simp add: sreal_eval)

section \<open>What smoothing leaves alone\<close>

text \<open>
  Claim C3. For every stroke of at least 18 scalars and every setting, open or closed,
  \<^verbatim>\<open>set_bezier_path\<close> returns a stroke with the same number of scalars and the same closed
  flag, in which the anchor position of every record (offsets 2 and 3 of each group of
  six) is the one of the input. Nothing is said about the other scalars: only they can
  differ.
\<close>

theorem anchors_unchanged:
  assumes "18 \<le> length ctlpts"
  shows "\<exists>out. set_bezier_path sv ctlpts is_closed = Some (out, is_closed)
           \<and> length out = length ctlpts
           \<and> (\<forall>i<length ctlpts div 6. out ! (i * 6 + 2) = ctlpts ! (i * 6 + 2)
                   \<and> out ! (i * 6 + 3) = ctlpts ! (i * 6 + 3))"
proof -
  let ?np = "length ctlpts"
  let ?len = "?np div 6"
  from set_bezier_path_eq[OF assms, of is_closed sv] obtain aconx1 aconx2 acony1 acony2 where
    run: "set_bezier_path sv ctlpts is_closed
             = Some (post_fun sv is_closed aconx1 acony1
                       (fold (step_fun sv is_closed ?np ?len aconx1 acony1 aconx2 acony2)
                          [0..<?len - 1]
                          (pre_fun sv is_closed aconx2 acony2 ctlpts)), is_closed)"
    by blast
  let ?st0 = "pre_fun sv is_closed aconx2 acony2 ctlpts"
  let ?st1 = "fold (step_fun sv is_closed ?np ?len aconx1 acony1 aconx2 acony2) [0..<?len - 1] ?st0"
  let ?out = "post_fun sv is_closed aconx1 acony1 ?st1"
  have keep: "?out ! j = ctlpts ! j"
    if j: "2 \<le> j" "j + 2 < 6 * ?len" "j mod 6 = 2 \<or> j mod 6 = 3" for j
  proof -
    have "6 * ?len \<le> ?np" by simp
    then have "j < length ?st1 - 2" using j(2) by simp
    then have "?out ! j = ?st1 ! j" by (rule post_fun_frame)
    also have "\<dots> = ?st0 ! j"
    proof (rule fold_step_frame)
      show "\<forall>n \<in> set [0..<?len - 1]. j \<notin> {n * 6 + 4, n * 6 + 5, n * 6 + 6, n * 6 + 7}"
        using j(3) by auto
    qed
    also have "\<dots> = ctlpts ! j" using j(1) by (rule pre_fun_frame)
    finally show ?thesis .
  qed
  have "\<forall>i<?len. ?out ! (i * 6 + 2) = ctlpts ! (i * 6 + 2)
                   \<and> ?out ! (i * 6 + 3) = ctlpts ! (i * 6 + 3)"
  proof (intro allI impI conjI)
    fix i assume i: "i < ?len"
    then have b: "i * 6 + 3 + 2 < 6 * ?len" by simp
    have m: "(i * 6 + 2) mod 6 = 2" "(i * 6 + 3) mod 6 = 3" by presburger+
    show "?out ! (i * 6 + 2) = ctlpts ! (i * 6 + 2)"
      by (rule keep) (use b m in linarith)+
    show "?out ! (i * 6 + 3) = ctlpts ! (i * 6 + 3)"
      by (rule keep) (use b m in linarith)+
  qed
  moreover have "length ?out = ?np" by simp
  ultimately show ?thesis using run by blast
qed

theorem anchors_unchanged_witness:
  "18 \<le> length zigzag
   \<and> set_bezier_path sv_on zigzag False
       = Some ([- 1, - 1, 0, 0, 1, 1,  8, - (20 / 9), 10, 0, 12, 20 / 9,
                12, 70 / 9, 10, 10, 8, 110 / 9,  - 1, 9, 0, 10, 1, 11], False)
   \<and> map (\<lambda>i. zigzag ! (i * 6 + 2)) [0, 1, 2, 3] = [0, 10, 10, 0]
   \<and> map (\<lambda>i. zigzag ! (i * 6 + 3)) [0, 1, 2, 3] = [0, 0, 10, 10]"
  using anchors_unchanged [of zigzag sv_on False] zigzag_on
  by (simp add: zigzag_def)

text \<open>
  Claim C10. For every open stroke of at least 18 scalars and every setting, the first
  two scalars (the incoming control point of the first anchor) and the last two (the
  outgoing control point of the last anchor) are returned as they were read.
\<close>

theorem open_end_controls_unchanged:
  assumes "18 \<le> length ctlpts"
  shows "\<exists>out. set_bezier_path sv ctlpts False = Some (out, False)
           \<and> out ! 0 = ctlpts ! 0 \<and> out ! 1 = ctlpts ! 1
           \<and> out ! (length ctlpts - 2) = ctlpts ! (length ctlpts - 2)
           \<and> out ! (length ctlpts - 1) = ctlpts ! (length ctlpts - 1)"
proof -
  let ?np = "length ctlpts"
  let ?len = "?np div 6"
  from set_bezier_path_eq[OF assms, of False sv] obtain aconx1 aconx2 acony1 acony2 where
    run: "set_bezier_path sv ctlpts False
             = Some (post_fun sv False aconx1 acony1
                       (fold (step_fun sv False ?np ?len aconx1 acony1 aconx2 acony2)
                          [0..<?len - 1]
                          (pre_fun sv False aconx2 acony2 ctlpts)), False)"
    by blast
  let ?out = "fold (step_fun sv False ?np ?len aconx1 acony1 aconx2 acony2) [0..<?len - 1] ctlpts"
  have run': "set_bezier_path sv ctlpts False = Some (?out, False)"
    using run by (simp add: post_fun_def pre_fun_def)
  have l6: "6 * ?len \<le> ?np" by simp
  have keep: "?out ! j = ctlpts ! j" if "j < 4 \<or> 6 * ?len \<le> j + 2" for j
  proof (rule fold_step_frame)
    show "\<forall>n \<in> set [0..<?len - 1]. j \<notin> {n * 6 + 4, n * 6 + 5, n * 6 + 6, n * 6 + 7}"
      using that by auto
  qed
  have "?out ! 0 = ctlpts ! 0" "?out ! 1 = ctlpts ! 1" by (rule keep, simp)+
  moreover have "?out ! (?np - 2) = ctlpts ! (?np - 2)" "?out ! (?np - 1) = ctlpts ! (?np - 1)"
  proof -
    have "6 * ?len \<le> ?np - 2 + 2" "6 * ?len \<le> ?np - 1 + 2" using l6 assms by linarith+
    then show "?out ! (?np - 2) = ctlpts ! (?np - 2)" "?out ! (?np - 1) = ctlpts ! (?np - 1)"
      using keep by blast+
  qed
  ultimately show ?thesis using run' by blast
qed

theorem open_end_controls_unchanged_witness:
  "18 \<le> length zigzag
   \<and> set_bezier_path sv_off zigzag False
       = Some ([- 1, - 1, 0, 0, 4, - (10 / 9),  8, - (20 / 9), 10, 0, 12, 20 / 9,
                12, 70 / 9, 10, 10, 8, 110 / 9,  4, 100 / 9, 0, 10, 1, 11], False)
   \<and> zigzag ! 0 = - 1 \<and> zigzag ! 1 = - 1
   \<and> zigzag ! (length zigzag - 2) = 1 \<and> zigzag ! (length zigzag - 1) = 11"
  using open_end_controls_unchanged [of zigzag sv_off] zigzag_off
  by (simp add: zigzag_def)

section \<open>The end points of an open stroke\<close>

text \<open>
  Claim C6. For every open stroke of at least 18 scalars, the outgoing control point of
  the first anchor (scalars 4 and 5) and the incoming control point of the last anchor
  (the first two scalars of the last record) are the computed values \<^verbatim>\<open>aconx1[0]\<close>,
  \<^verbatim>\<open>acony1[0]\<close>, \<^verbatim>\<open>aconx2[len - 2]\<close>, \<^verbatim>\<open>acony2[len - 2]\<close> when \<^verbatim>\<open>smooth_specified\<close> is 0,
  and the values of the input otherwise. The angles of the stroke have no part in it.
\<close>

theorem open_endpoint_corners:
  assumes "18 \<le> length ctlpts"
  shows "\<exists>aconx1 aconx2 acony1 acony2 out.
           control_arrays ctlpts False = Some (aconx1, aconx2, acony1, acony2)
         \<and> set_bezier_path sv ctlpts False = Some (out, False)
         \<and> out ! 4 = (if smooth_specified sv = 0 then aconx1 ! 0 else ctlpts ! 4)
         \<and> out ! 5 = (if smooth_specified sv = 0 then acony1 ! 0 else ctlpts ! 5)
         \<and> out ! ((length ctlpts div 6 - 1) * 6)
             = (if smooth_specified sv = 0 then aconx2 ! (length ctlpts div 6 - 2)
                else ctlpts ! ((length ctlpts div 6 - 1) * 6))
         \<and> out ! ((length ctlpts div 6 - 1) * 6 + 1)
             = (if smooth_specified sv = 0 then acony2 ! (length ctlpts div 6 - 2)
                else ctlpts ! ((length ctlpts div 6 - 1) * 6 + 1))"
proof -
  let ?np = "length ctlpts"
  let ?len = "?np div 6"
  from set_bezier_path_eq[OF assms, of False sv] obtain aconx1 aconx2 acony1 acony2 where
    ca: "control_arrays ctlpts False = Some (aconx1, aconx2, acony1, acony2)"
    and run: "set_bezier_path sv ctlpts False
             = Some (post_fun sv False aconx1 acony1
                       (fold (step_fun sv False ?np ?len aconx1 acony1 aconx2 acony2)
                          [0..<?len - 1]
                          (pre_fun sv False aconx2 acony2 ctlpts)), False)"
    by blast
  let ?f = "step_fun sv False ?np ?len aconx1 acony1 aconx2 acony2"
  let ?out = "fold ?f [0..<?len - 1] ctlpts"
  have run': "set_bezier_path sv ctlpts False = Some (?out, False)"
    using run by (simp add: post_fun_def pre_fun_def)
  have len3: "3 \<le> ?len" using assms by simp
  have l6: "6 * ?len \<le> ?np" by simp
  define m where "m = ?len - 2"
  have m: "?len - 1 = Suc m" "0 < m" "m * 6 + 7 < ?np" "(?len - 1) * 6 = m * 6 + 6"
    using len3 l6 by (simp_all add: m_def)
  \<comment> \<open>the first anchor's outgoing control point: written by iteration 0 only\<close>
  have split0: "[0..<?len - 1] = 0 # [1..<?len - 1]" using m by (simp add: upt_conv_Cons)
  have first: "?out ! j = ?f 0 ctlpts ! j" if "j = 4 \<or> j = 5" for j
  proof -
    have "?out ! j = fold ?f [1..<?len - 1] (?f 0 ctlpts) ! j" unfolding split0 by simp
    also have "\<dots> = ?f 0 ctlpts ! j"
      by (rule fold_step_frame) (use that in auto)
    finally show ?thesis .
  qed
  have g10: "gate1 sv False ?np ctlpts 0 = (smooth_specified sv = 0)" by (simp add: gate1_def)
  have o4: "?out ! 4 = (if smooth_specified sv = 0 then aconx1 ! 0 else ctlpts ! 4)"
    using first[of 4] assms by (simp add: step_fun_def Let_def g10)
  have o5: "?out ! 5 = (if smooth_specified sv = 0 then acony1 ! 0 else ctlpts ! 5)"
    using first[of 5] assms by (simp add: step_fun_def Let_def g10)
  \<comment> \<open>the last anchor's incoming control point: written by the last iteration only\<close>
  have splitl: "[0..<?len - 1] = [0..<m] @ [m]" using m(1) by simp
  let ?st = "fold ?f [0..<m] ctlpts"
  have last: "?out = ?f m ?st" unfolding splitl by simp
  have before: "?st ! j = ctlpts ! j" if "m * 6 + 2 \<le> j" for j
    by (rule fold_step_frame) (use that in auto)
  have g2m: "gate2 sv False ?np ?len s m = (smooth_specified sv = 0)" for s
    by (simp add: gate2_def m_def)
  have lst: "length ?st = ?np" by simp
  have o6: "?out ! (m * 6 + 6) = (if smooth_specified sv = 0 then aconx2 ! m else ctlpts ! (m * 6 + 6))"
    unfolding last using m(3) lst before[of "m * 6 + 6"]
    by (simp add: step_fun_def Let_def g2m)
  have o7: "?out ! (m * 6 + 7) = (if smooth_specified sv = 0 then acony2 ! m else ctlpts ! (m * 6 + 7))"
    unfolding last using m(3) lst before[of "m * 6 + 7"]
    by (simp add: step_fun_def Let_def g2m)
  have e: "m * 6 + 6 + 1 = m * 6 + 7" by simp
  show ?thesis
    using ca run' o4 o5 o6 o7 unfolding m(4) e m_def[symmetric] by blast
qed

theorem open_endpoint_corners_witness:
  "18 \<le> length zigzag
   \<and> control_arrays zigzag False
       = Some ([4, 12, 8], [8, 12, 4], [- (10 / 9), 20 / 9, 110 / 9],
               [- (20 / 9), 70 / 9, 100 / 9])
   \<and> set_bezier_path sv_off zigzag False
       = Some ([- 1, - 1, 0, 0, 4, - (10 / 9),  8, - (20 / 9), 10, 0, 12, 20 / 9,
                12, 70 / 9, 10, 10, 8, 110 / 9,  4, 100 / 9, 0, 10, 1, 11], False)
   \<and> set_bezier_path sv_on zigzag False
       = Some ([- 1, - 1, 0, 0, 1, 1,  8, - (20 / 9), 10, 0, 12, 20 / 9,
                12, 70 / 9, 10, 10, 8, 110 / 9,  - 1, 9, 0, 10, 1, 11], False)
   \<and> smooth_specified sv_off = 0 \<and> smooth_specified sv_on = 1
   \<and> zigzag ! 4 = 1 \<and> zigzag ! 5 = 1 \<and> zigzag ! 18 = - 1 \<and> zigzag ! 19 = 9"
  using open_endpoint_corners [of zigzag sv_off] open_endpoint_corners [of zigzag sv_on]
    zigzag_arrays zigzag_off zigzag_on
  by (simp add: zigzag_def sv_off_def sv_on_def)

section \<open>A stroke on a line\<close>

text \<open>
  Claim C7. For every open stroke of at least 18 scalars whose anchors are equally spaced
  on a line, \<open>x\<^sub>i = x\<^sub>0 + i \<cdot> dx\<close> and \<open>y\<^sub>i = y\<^sub>0 + i \<cdot> dy\<close>, the computed control values of
  segment \<open>n\<close> are the points at one third and at two thirds of the segment:
  \<^verbatim>\<open>aconx1[n]\<close> is \<open>x\<^sub>n + dx / 3\<close> and \<^verbatim>\<open>aconx2[n]\<close> is \<open>x\<^sub>n + 2 \<cdot> dx / 3\<close>, and likewise in y.
  Arithmetic is exact.
\<close>

theorem linear_stroke_interpolated:
  assumes "18 \<le> length ctlpts"
    and "\<forall>i<length ctlpts div 6. ctlpts ! (i * 6 + 2) = x0 + real i * dx
                                  \<and> ctlpts ! (i * 6 + 3) = y0 + real i * dy"
  shows "\<exists>aconx1 aconx2 acony1 acony2.
           control_arrays ctlpts False = Some (aconx1, aconx2, acony1, acony2)
         \<and> length aconx1 = length ctlpts div 6 - 1 \<and> length aconx2 = length ctlpts div 6 - 1
         \<and> length acony1 = length ctlpts div 6 - 1 \<and> length acony2 = length ctlpts div 6 - 1
         \<and> (\<forall>n<length ctlpts div 6 - 1.
                aconx1 ! n = ctlpts ! (n * 6 + 2) + dx / 3
              \<and> aconx2 ! n = ctlpts ! (n * 6 + 2) + 2 * dx / 3
              \<and> acony1 ! n = ctlpts ! (n * 6 + 3) + dy / 3
              \<and> acony2 ! n = ctlpts ! (n * 6 + 3) + 2 * dy / 3)"
proof -
  let ?len = "length ctlpts div 6"
  let ?ax = "anchor_vals 2 ctlpts False" and ?ay = "anchor_vals 3 ctlpts False"
  have lx: "length ?ax = ?len" and ly: "length ?ay = ?len" by (simp_all add: length_anchor_vals)
  have ax: "?ax ! i = x0 + real i * dx" and ay: "?ay ! i = y0 + real i * dy" if "i < ?len" for i
    using that assms(2) by (simp_all add: anchor_vals_def)
  have sx: "spline_rel ?ax ?ax" by (rule linear_spline_rel[of _ x0 dx]) (simp add: lx ax)
  have sy: "spline_rel ?ay ?ay" by (rule linear_spline_rel[of _ y0 dy]) (simp add: ly ay)
  have ca: "control_arrays ctlpts False = Some (con1s ?ax, con2s ?ax, con1s ?ay, con2s ?ay)"
    using control_arrays_eval[OF assms(1) sx sy] by (simp add: stripped_def)
  have vals: "con1s ?ax ! n = ctlpts ! (n * 6 + 2) + dx / 3
              \<and> con2s ?ax ! n = ctlpts ! (n * 6 + 2) + 2 * dx / 3
              \<and> con1s ?ay ! n = ctlpts ! (n * 6 + 3) + dy / 3
              \<and> con2s ?ay ! n = ctlpts ! (n * 6 + 3) + 2 * dy / 3" if n: "n < ?len - 1" for n
  proof -
    have b: "n < ?len" "Suc n < ?len" using n by simp_all
    have p: "ctlpts ! (n * 6 + 2) = x0 + real n * dx" "ctlpts ! (n * 6 + 3) = y0 + real n * dy"
      using assms(2) b(1) by simp_all
    show ?thesis
      using n unfolding p
      by (simp add: con1s_nth con2s_nth lx ly ax[OF b(1)] ax[OF b(2)] ay[OF b(1)] ay[OF b(2)]
          field_simps)
  qed
  have lens: "length (con1s ?ax) = ?len - 1" "length (con2s ?ax) = ?len - 1"
    "length (con1s ?ay) = ?len - 1" "length (con2s ?ay) = ?len - 1"
    using lx ly by simp_all
  have "\<forall>n<?len - 1. con1s ?ax ! n = ctlpts ! (n * 6 + 2) + dx / 3
              \<and> con2s ?ax ! n = ctlpts ! (n * 6 + 2) + 2 * dx / 3
              \<and> con1s ?ay ! n = ctlpts ! (n * 6 + 3) + dy / 3
              \<and> con2s ?ay ! n = ctlpts ! (n * 6 + 3) + 2 * dy / 3"
    using vals by blast
  with ca lens show ?thesis by blast
qed

theorem linear_stroke_interpolated_witness:
  "18 \<le> length line4
   \<and> map (\<lambda>i. line4 ! (i * 6 + 2)) [0, 1, 2, 3] = map (\<lambda>i. 0 + real i * 3) [0, 1, 2, 3]
   \<and> map (\<lambda>i. line4 ! (i * 6 + 3)) [0, 1, 2, 3] = map (\<lambda>i. 1 + real i * 2) [0, 1, 2, 3]
   \<and> control_arrays line4 False
       = Some ([1, 4, 7], [2, 5, 8], [5 / 3, 11 / 3, 17 / 3], [7 / 3, 13 / 3, 19 / 3])"
proof -
  have len: "18 \<le> length line4" by (simp add: line4_def)
  have lin: "\<forall>i<length line4 div 6. line4 ! (i * 6 + 2) = 0 + real i * 3
                                     \<and> line4 ! (i * 6 + 3) = 1 + real i * 2"
  proof (intro allI impI)
    fix i assume "i < length line4 div 6"
    then have "i = 0 \<or> i = 1 \<or> i = 2 \<or> i = 3" by (auto simp: line4_def)
    then show "line4 ! (i * 6 + 2) = 0 + real i * 3 \<and> line4 ! (i * 6 + 3) = 1 + real i * 2"
      by (auto simp: line4_def)
  qed
  have ax: "anchor_vals 2 line4 False = [0, 3, 6, 9]" "anchor_vals 3 line4 False = [1, 3, 5, 7]"
    by (simp_all add: anchor_vals_def line4_def upt_numeral_expand)
  have sp: "spline_rel (anchor_vals 2 line4 False) [0, 3, 6, 9]"
    "spline_rel (anchor_vals 3 line4 False) [1, 3, 5, 7]"
    unfolding ax by (simp_all add: spline_rel_def upt_numeral_expand)
  have ca: "control_arrays line4 False
       = Some ([1, 4, 7], [2, 5, 8], [5 / 3, 11 / 3, 17 / 3], [7 / 3, 13 / 3, 19 / 3])"
    by (subst control_arrays_eval[OF _ sp]) (simp_all add: line4_def eval_defs)
  show ?thesis
    using linear_stroke_interpolated [OF len lin] ca
    by (simp add: line4_def)
qed

section \<open>The solver is called within its bounds\<close>

text \<open>
  Claim C9. For every stroke of at least 18 scalars, open or closed, both anchor arrays
  have at least three elements, so that the arrays \<^verbatim>\<open>asd\<close> and \<^verbatim>\<open>asb\<close> of each pass have
  one element, which is the closed-form branch, or at least two, which is the only case
  that reaches \<^verbatim>\<open>triagonal_solve\<close>: a solver that refuses shorter arrays gives the same
  results. No element access of the two passes, the solver included, or of the rest of
  \<^verbatim>\<open>set_bezier_path\<close> leaves its array: the function returns a stroke.
\<close>

theorem solver_calls_in_bounds:
  assumes "18 \<le> length ctlpts"
  shows "\<exists>acx acy asd asb aconx1 aconx2 asd' asb' acony1 acony2 out.
           anchor_arrays ctlpts is_closed = Some (acx, acy)
         \<and> (length acx - 2 = 1 \<or> 2 \<le> length acx - 2)
         \<and> (length acy - 2 = 1 \<or> 2 \<le> length acy - 2)
         \<and> axis_pass [] [] acx = Some (asd, asb, aconx1, aconx2)
         \<and> axis_pass_with triagonal_solve_guarded [] [] acx = Some (asd, asb, aconx1, aconx2)
         \<and> axis_pass asd asb acy = Some (asd', asb', acony1, acony2)
         \<and> axis_pass_with triagonal_solve_guarded asd asb acy = Some (asd', asb', acony1, acony2)
         \<and> set_bezier_path sv ctlpts is_closed = Some (out, is_closed)"
proof -
  let ?acx = "anchor_vals 2 ctlpts is_closed"
  let ?acy = "anchor_vals 3 ctlpts is_closed"
  have len3: "3 \<le> length ctlpts div 6" using assms by simp
  have lx: "3 \<le> length ?acx" and ly: "3 \<le> length ?acy"
    using len3 by (simp_all add: length_anchor_vals)
  from axis_pass_spline[OF lx, of "[]" "[]"] obtain asd bx where
    px: "axis_pass [] [] ?acx = Some (asd, bx, con1s bx, con2s bx)"
    by blast
  from axis_pass_spline[OF ly, of asd bx] obtain asd' "by" where
    py: "axis_pass asd bx ?acy = Some (asd', by, con1s by, con2s by)"
    by blast
  from set_bezier_path_eq[OF assms, of is_closed sv] obtain out where
    run: "set_bezier_path sv ctlpts is_closed = Some (out, is_closed)"
    by blast
  have gx: "axis_pass_with triagonal_solve_guarded [] [] ?acx = Some (asd, bx, con1s bx, con2s bx)"
    using axis_pass_guarded[OF lx] px by simp
  have gy: "axis_pass_with triagonal_solve_guarded asd bx ?acy = Some (asd', by, con1s by, con2s by)"
    using axis_pass_guarded[OF ly] py by simp
  have dx: "length ?acx - 2 = 1 \<or> 2 \<le> length ?acx - 2" using lx by linarith
  have dy: "length ?acy - 2 = 1 \<or> 2 \<le> length ?acy - 2" using ly by linarith
  show ?thesis
    using anchor_arrays_eq[OF assms, of is_closed] dx dy px gx py gy run by blast
qed

theorem solver_calls_in_bounds_witness:
  "18 \<le> length zigzag
   \<and> anchor_arrays zigzag False = Some ([0, 10, 10, 0], [0, 0, 10, 10])
   \<and> 2 \<le> length [0, 10, 10, 0 :: real] - 2
   \<and> axis_pass [] [] [0, 10, 10, 0] = Some ([15, 12], [0, 12, 12, 0], [4, 12, 8], [8, 12, 4])
   \<and> axis_pass_with triagonal_solve_guarded [] [] [0, 10, 10, 0]
       = Some ([15, 12], [0, 12, 12, 0], [4, 12, 8], [8, 12, 4])
   \<and> axis_pass [15, 12] [0, 12, 12, 0] [0, 0, 10, 10]
       = Some ([0, 40 / 3], [0, - (10 / 3), 40 / 3, 10], [- (10 / 9), 20 / 9, 110 / 9],
               [- (20 / 9), 70 / 9, 100 / 9])
   \<and> axis_pass_with triagonal_solve_guarded [15, 12] [0, 12, 12, 0] [0, 0, 10, 10]
       = Some ([0, 40 / 3], [0, - (10 / 3), 40 / 3, 10], [- (10 / 9), 20 / 9, 110 / 9],
               [- (20 / 9), 70 / 9, 100 / 9])
   \<and> set_bezier_path sv_off zigzag False
       = Some ([- 1, - 1, 0, 0, 4, - (10 / 9),  8, - (20 / 9), 10, 0, 12, 20 / 9,
                12, 70 / 9, 10, 10, 8, 110 / 9,  4, 100 / 9, 0, 10, 1, 11], False)"
proof -
  have len: "18 \<le> length zigzag" by (simp add: zigzag_def)
  have aa: "anchor_arrays zigzag False = Some ([0, 10, 10, 0], [0, 0, 10, 10])"
    using anchor_arrays_eq[OF len, of False] by (simp add: zigzag_anchors)
  have gx: "axis_pass_with triagonal_solve_guarded [] [] [0, 10, 10, 0]
              = axis_pass [] [] [0, 10, 10, 0]"
    by (rule axis_pass_guarded) simp
  have gy: "axis_pass_with triagonal_solve_guarded [15, 12] [0, 12, 12, 0] [0, 0, 10, 10]
              = axis_pass [15, 12] [0, 12, 12, 0] [0, 0, 10, 10]"
    by (rule axis_pass_guarded) simp
  show ?thesis
    using solver_calls_in_bounds [OF len, of False sv_off]
    by (simp add: len aa gx gy zigzag_axis_x zigzag_axis_y zigzag_off)
qed

section \<open>Rotating a closed stroke\<close>

text \<open>
  Claim C4: smoothing a closed stroke and smoothing the same stroke with its anchor list
  rotated by one position give the same curve. The program does not achieve this. It
  fits an open spline to the padded sequence \<open>a\<^sub>n\<^sub>-\<^sub>1, a\<^sub>0, \<dots>, a\<^sub>n\<^sub>-\<^sub>1, a\<^sub>0, a\<^sub>1\<close>, in which the two
  copies of \<open>a\<^sub>0\<close> get different nodes, and writes at anchor 0 an incoming handle taken from
  one end of that spline and an outgoing handle taken from the other end. On the closed
  triangle (0, 0), (627, 0), (0, 627) with every corner smoothed, the run leaves a corner
  at anchor 0, with the handles (-145, 178) and (178, -145), and is smooth at the two
  other anchors. The run on the rotated triangle leaves its corner at (627, 0), the
  anchor its list starts with, and is smooth at (0, 0). The two results differ in all
  twelve control scalars, by 4 to 53 units. The header comment of \<^verbatim>\<open>set_bezier_path\<close>
  announces a path whose curves are ``smoothly interpolated between each other''.
\<close>

theorem rotation_counterexample:
  "set_bezier_path sv_off triangle True
     = Some ([- 145, 178, 0, 0, 178, - 145,  623, - 194, 627, 0, 631, 194,
              194, 631, 0, 627, - 194, 623], True)
   \<and> rotate 6 [- 145, 178, 0, 0, 178, - 145,  623, - 194, 627, 0, 631, 194,
                 194, 631, 0, 627, - 194, 623 :: real]
     = [623, - 194, 627, 0, 631, 194,  194, 631, 0, 627, - 194, 623,
        - 145, 178, 0, 0, 178, - 145]
   \<and> set_bezier_path sv_off (rotate 6 triangle) True
     = Some ([594, - 145, 627, 0, 594, 178,  198, 623, 0, 627, - 198, 631,
              - 198, 194, 0, 0, 198, - 194], True)
   \<and> [594, - 145, 627, 0, 594, 178,  198, 623, 0, 627, - 198, 631,
        - 198, 194, 0, 0, 198, - 194]
     \<noteq> rotate 6 [- 145, 178, 0, 0, 178, - 145,  623, - 194, 627, 0, 631, 194,
                   194, 631, 0, 627, - 194, 623 :: real]
   \<and> \<not> smooth_at [- 145, 178, 0, 0, 178, - 145,  623, - 194, 627, 0, 631, 194,
                     194, 631, 0, 627, - 194, 623] 0
   \<and> smooth_at [- 145, 178, 0, 0, 178, - 145,  623, - 194, 627, 0, 631, 194,
                 194, 631, 0, 627, - 194, 623] 1
   \<and> smooth_at [- 145, 178, 0, 0, 178, - 145,  623, - 194, 627, 0, 631, 194,
                 194, 631, 0, 627, - 194, 623] 2
   \<and> \<not> smooth_at [594, - 145, 627, 0, 594, 178,  198, 623, 0, 627, - 198, 631,
                     - 198, 194, 0, 0, 198, - 194] 0
   \<and> smooth_at [594, - 145, 627, 0, 594, 178,  198, 623, 0, 627, - 198, 631,
                 - 198, 194, 0, 0, 198, - 194] 1
   \<and> smooth_at [594, - 145, 627, 0, 594, 178,  198, 623, 0, 627, - 198, 631,
                 - 198, 194, 0, 0, 198, - 194] 2"
  using triangle_off rotated_triangle_off by (simp add: rotate_drop_take smooth_at_def)

end
